theory Spec2Isabelle
  imports Main "HOL-Library.Word"
begin

section \<open>The scull storage core: data model\<close>

text \<open>
  The repository holds three drivers, scullc (\<^verbatim>\<open>src/scullc/main.c\<close>), scullp (the
  \<^verbatim>\<open>main.c\<close> that follows the Makefile in \<^verbatim>\<open>src/sculld/Makefile\<close>, and the
  \<^verbatim>\<open>mmap.c\<close> in \<^verbatim>\<open>src/unnamed/part_000\<close>) and scullv (\<^verbatim>\<open>src/scullv/main.c\<close>,
  \<^verbatim>\<open>src/scullv/mmap.c\<close>). Their \<^verbatim>\<open>follow\<close>, \<^verbatim>\<open>read\<close>, \<^verbatim>\<open>write\<close>, \<^verbatim>\<open>llseek\<close> and
  \<^verbatim>\<open>trim\<close> functions are the same text up to three places: where the quantum comes
  from (\<^verbatim>\<open>dev->quantum\<close> in scullc, \<^verbatim>\<open>PAGE_SIZE << dev->order\<close> in scullp and
  scullv), how a block is allocated (\<^verbatim>\<open>kmem_cache_alloc\<close> and a \<^verbatim>\<open>memset\<close> of
  \<^verbatim>\<open>scullc_quantum\<close> bytes, \<^verbatim>\<open>__get_free_pages\<close> or \<^verbatim>\<open>vmalloc\<close> and a \<^verbatim>\<open>memset\<close> of
  \<^verbatim>\<open>PAGE_SIZE << dptr->order\<close> bytes), and which field \<^verbatim>\<open>trim\<close> restores. The model
  has each function once, with the driver as a parameter.
\<close>

datatype variant = Scullc | Scullp | Scullv

type_synonym byte = "8 word"

text \<open>A quantum: the kernel address the allocator returned and the bytes stored there.\<close>

record block =
  addr :: nat
  bytes :: "byte list"

text \<open>
  \<^verbatim>\<open>struct scullc_dev\<close>, \<^verbatim>\<open>struct scullp_dev\<close> and \<^verbatim>\<open>struct scullv_dev\<close> (the headers are
  not among the sources; the fields are the ones the functions use). scullc has the
  field \<^verbatim>\<open>quantum\<close>, scullp and scullv have \<^verbatim>\<open>order\<close>; the record carries both and a
  driver reads only its own. \<^verbatim>\<open>data\<close> is the array of quantum pointers, \<open>None\<close> for a
  null pointer. The \<^verbatim>\<open>next\<close> link is the list structure: a device is the list of its
  nodes, the device itself first, and the node that \<^verbatim>\<open>next\<close> points to is the following
  element. Sizes, positions and counts are natural numbers: the model covers the calls
  whose C arithmetic does not wrap (positions from 0, as the VFS passes them).
\<close>

record scull_dev =
  data :: "block option list option"
  vmas :: int
  quantum :: nat
  order :: nat
  qset :: nat
  size_dev :: nat

text \<open>
  What the code reads from outside the device: \<^verbatim>\<open>PAGE_SHIFT\<close> (\<^verbatim>\<open>PAGE_SIZE\<close> is
  \<open>2 ^ PAGE_SHIFT\<close>) and the load-time parameters \<^verbatim>\<open>scullc_quantum\<close>,
  \<^verbatim>\<open>scullp_order\<close>/\<^verbatim>\<open>scullv_order\<close> and \<^verbatim>\<open>scullc_qset\<close>/\<^verbatim>\<open>scullp_qset\<close>/\<^verbatim>\<open>scullv_qset\<close>.
\<close>

record params =
  PAGE_SHIFT :: nat
  scull_quantum :: nat
  scull_order :: nat
  scull_qset :: nat

definition PAGE_SIZE :: "params \<Rightarrow> nat" where
  "PAGE_SIZE k = 2 ^ PAGE_SHIFT k"

text \<open>
  What one call meets in the kernel: whether the wait for the device lock is
  interrupted (\<^verbatim>\<open>down_interruptible\<close>, \<^verbatim>\<open>mutex_lock_interruptible\<close> return non-zero),
  whether \<^verbatim>\<open>kmalloc\<close> of the pointer array fails, the address the block allocator
  returns (\<open>None\<close> for a null pointer), and how many bytes \<^verbatim>\<open>copy_to_user\<close> or
  \<^verbatim>\<open>copy_from_user\<close> would leave uncopied (they return that number, which is at most
  the number of bytes asked for).
\<close>

record env =
  interrupted :: bool
  kmalloc_fails :: bool
  block_alloc :: "nat option"
  uncopied :: nat

datatype errno = ERESTARTSYS | ENOMEM | EFAULT | EBUSY | ENODEV | EINVAL

text \<open>
  A return value: \<open>Ret n\<close> is the non-negative number \<open>n\<close>, \<open>Err e\<close> is \<open>-e\<close>, and
  \<open>Oops\<close> stands for the calls whose C behaviour is undefined or traps: a division by
  zero, an index outside a pointer array, a copy that runs past the end of a block.
\<close>

datatype retval = Ret nat | Err errno | Oops

section \<open>Follow, read and write\<close>

text \<open>\<^verbatim>\<open>kmalloc\<close> followed by \<^verbatim>\<open>memset(.., 0, ..)\<close>: a node with every field zero.\<close>

definition zeroed :: scull_dev where
  "zeroed = \<lparr>data = None, vmas = 0, quantum = 0, order = 0, qset = 0, size_dev = 0\<rparr>"

text \<open>
  \<^verbatim>\<open>scullc_follow\<close>, \<^verbatim>\<open>scullp_follow\<close>, \<^verbatim>\<open>scullv_follow\<close>: \<^verbatim>\<open>n\<close> steps along the list, a
  missing next node being allocated and zeroed on the way. The result is the list after
  the walk; the pointer the C function returns is its element \<open>n\<close>. The code does not
  test what \<^verbatim>\<open>kmalloc\<close> returns here, and the model takes it to succeed, as the code
  does.
\<close>

fun scull_follow :: "scull_dev list \<Rightarrow> nat \<Rightarrow> scull_dev list" where
  "scull_follow [] n = []"
| "scull_follow (d # rest) 0 = d # rest"
| "scull_follow (d # rest) (Suc n) =
     d # scull_follow (case rest of [] \<Rightarrow> [zeroed] | _ # _ \<Rightarrow> rest) n"

text \<open>\<^verbatim>\<open>int quantum = dev->quantum;\<close> or \<^verbatim>\<open>int quantum = PAGE_SIZE << dev->order;\<close>\<close>

definition dev_quantum :: "variant \<Rightarrow> params \<Rightarrow> scull_dev \<Rightarrow> nat" where
  "dev_quantum v k d =
     (case v of Scullc \<Rightarrow> quantum d | _ \<Rightarrow> PAGE_SIZE k * 2 ^ order d)"

text \<open>
  The length of a fresh block: scullc takes it from the cache created with
  \<^verbatim>\<open>scullc_quantum\<close> and zeroes \<^verbatim>\<open>scullc_quantum\<close> bytes; scullp and scullv allocate and
  zero \<^verbatim>\<open>PAGE_SIZE << dptr->order\<close> bytes, the order being read from the list node.
\<close>

definition new_block_len :: "variant \<Rightarrow> params \<Rightarrow> scull_dev \<Rightarrow> nat" where
  "new_block_len v k dptr =
     (case v of Scullc \<Rightarrow> scull_quantum k | _ \<Rightarrow> PAGE_SIZE k * 2 ^ order dptr)"

text \<open>
  \<^verbatim>\<open>copy_to_user(buf, src, n)\<close>: the number of bytes left uncopied and the bytes that
  reached the user buffer. \<^verbatim>\<open>copy_from_user(dst, buf, n)\<close>: the number of bytes left
  uncopied and the \<open>n\<close> bytes that end up at the destination, the copied ones followed
  by the zeroes the kernel pads a short copy with. The user buffer \<open>buf\<close> is the list of
  bytes readable at the user address; a buffer shorter than \<open>n\<close> cannot be copied whole.
\<close>

definition copy_to_user :: "env \<Rightarrow> byte list \<Rightarrow> nat \<Rightarrow> nat \<times> byte list" where
  "copy_to_user e src n = (let bad = min (uncopied e) n in (bad, take (n - bad) src))"

definition copy_from_user :: "env \<Rightarrow> byte list \<Rightarrow> nat \<Rightarrow> nat \<times> byte list" where
  "copy_from_user e buf n =
     (let bad = min n (max (uncopied e) (n - length buf))
      in (bad, take (n - bad) buf @ replicate bad 0))"

record read_result =
  r_ret :: retval
  r_out :: "byte list"
  r_dev :: "scull_dev list"
  r_pos :: nat

text \<open>
  \<^verbatim>\<open>scullc_read\<close>, \<^verbatim>\<open>scullp_read\<close>, \<^verbatim>\<open>scullv_read\<close>. \<open>r_out\<close> is what reached the user
  buffer, \<open>r_dev\<close> the device after the call and \<open>r_pos\<close> the value of \<^verbatim>\<open>*f_pos\<close> after it.
  A copy of no bytes touches no memory, so only a copy of at least one byte can run
  past the end of a block.
\<close>

definition scull_read ::
  "variant \<Rightarrow> params \<Rightarrow> env \<Rightarrow> scull_dev list \<Rightarrow> nat \<Rightarrow> nat \<Rightarrow> read_result" where
  "scull_read v k e dev count f_pos =
    (let d = hd dev;
         q = dev_quantum v k d;
         itemsize = q * qset d;
         stop = (\<lambda>r dv. \<lparr>r_ret = r, r_out = [], r_dev = dv, r_pos = f_pos\<rparr>)
     in
     if interrupted e then stop (Err ERESTARTSYS) dev
     else if f_pos > size_dev d then stop (Ret 0) dev
     else
       (let count = (if f_pos + count > size_dev d then size_dev d - f_pos else count) in
        if itemsize = 0 then stop Oops dev
        else
          (let item = f_pos div itemsize;
               rest = f_pos mod itemsize;
               s_pos = rest div q;
               q_pos = rest mod q;
               dev1 = scull_follow dev item;
               dptr = dev1 ! item
           in
           (case data dptr of
              None \<Rightarrow> stop (Ret 0) dev1
            | Some arr \<Rightarrow>
                if \<not> s_pos < length arr then stop Oops dev1
                else
                  (case arr ! s_pos of
                     None \<Rightarrow> stop (Ret 0) dev1
                   | Some blk \<Rightarrow>
                       (let count = (if count > q - q_pos then q - q_pos else count) in
                        if count \<noteq> 0 \<and> q_pos + count > length (bytes blk)
                        then stop Oops dev1
                        else
                          (let (bad, out) = copy_to_user e (drop q_pos (bytes blk)) count in
                           if bad \<noteq> 0 then
                             \<lparr>r_ret = Err EFAULT, r_out = out, r_dev = dev1, r_pos = f_pos\<rparr>
                           else
                             \<lparr>r_ret = Ret count, r_out = out, r_dev = dev1,
                              r_pos = f_pos + count\<rparr>)))))))"

record write_result =
  w_ret :: retval
  w_dev :: "scull_dev list"
  w_pos :: nat

text \<open>
  The pointer array of the node after
  \<^verbatim>\<open>if (!dptr->data) { dptr->data = kmalloc(qset * sizeof(void *), GFP_KERNEL);
  if (!dptr->data) goto out; memset(dptr->data, 0, qset * sizeof(char *)); }\<close>:
  the one that is there, or a new one of \<^verbatim>\<open>qset\<close> null pointers; \<open>None\<close> when
  \<^verbatim>\<open>kmalloc\<close> fails.
\<close>

definition ensure_array :: "env \<Rightarrow> nat \<Rightarrow> scull_dev \<Rightarrow> block option list option" where
  "ensure_array e qs dptr =
     (case data dptr of
        Some arr \<Rightarrow> Some arr
      | None \<Rightarrow> if kmalloc_fails e then None else Some (replicate qs None))"

text \<open>
  The block in a slot after
  \<^verbatim>\<open>if (!dptr->data[s_pos]) { dptr->data[s_pos] = <allocate>;
  if (!dptr->data[s_pos]) goto out; memset(dptr->data[s_pos], 0, <length>); }\<close>:
  the one that is there, or a new one full of zeroes; \<open>None\<close> when the allocator
  returns a null pointer.
\<close>

definition ensure_block ::
  "variant \<Rightarrow> params \<Rightarrow> env \<Rightarrow> scull_dev \<Rightarrow> block option \<Rightarrow> block option" where
  "ensure_block v k e dptr slot =
     (case slot of
        Some blk \<Rightarrow> Some blk
      | None \<Rightarrow>
          (case block_alloc e of
             None \<Rightarrow> None
           | Some a \<Rightarrow> Some \<lparr>addr = a, bytes = replicate (new_block_len v k dptr) 0\<rparr>))"

text \<open>
  \<^verbatim>\<open>scullc_write\<close>, \<^verbatim>\<open>scullp_write\<close>, \<^verbatim>\<open>scullv_write\<close>. The pointer array and the block
  are allocated when they are missing, also when \<^verbatim>\<open>count\<close> is 0; what was allocated
  stays in the device when a later step fails.
\<close>

definition scull_write ::
  "variant \<Rightarrow> params \<Rightarrow> env \<Rightarrow> scull_dev list \<Rightarrow> byte list \<Rightarrow> nat \<Rightarrow> nat \<Rightarrow> write_result" where
  "scull_write v k e dev buf count f_pos =
    (let d = hd dev;
         q = dev_quantum v k d;
         itemsize = q * qset d;
         stop = (\<lambda>r dv. \<lparr>w_ret = r, w_dev = dv, w_pos = f_pos\<rparr>)
     in
     if interrupted e then stop (Err ERESTARTSYS) dev
     else if itemsize = 0 then stop Oops dev
     else
       (let item = f_pos div itemsize;
            rest = f_pos mod itemsize;
            s_pos = rest div q;
            q_pos = rest mod q;
            dev1 = scull_follow dev item;
            dptr = dev1 ! item
        in
        (case ensure_array e (qset d) dptr of
           None \<Rightarrow> stop (Err ENOMEM) dev1
         | Some arr \<Rightarrow>
             (let dev2 = dev1[item := dptr\<lparr>data := Some arr\<rparr>] in
              if \<not> s_pos < length arr then stop Oops dev2
              else
                (case ensure_block v k e dptr (arr ! s_pos) of
                   None \<Rightarrow> stop (Err ENOMEM) dev2
                 | Some blk \<Rightarrow>
                     (let dev3 = dev2[item := dptr\<lparr>data := Some (arr[s_pos := Some blk])\<rparr>];
                          count = (if count > q - q_pos then q - q_pos else count)
                      in
                      if count \<noteq> 0 \<and> q_pos + count > length (bytes blk)
                      then stop Oops dev3
                      else
                        (let (bad, src) = copy_from_user e buf count;
                             blk4 = blk\<lparr>bytes := take q_pos (bytes blk) @ src
                                                   @ drop (q_pos + count) (bytes blk)\<rparr>;
                             dev4 = dev3[item := dptr\<lparr>data := Some (arr[s_pos := Some blk4])\<rparr>]
                         in
                         if bad \<noteq> 0 then stop (Err EFAULT) dev4
                         else
                           (let f_pos' = f_pos + count;
                                dev5 = (if size_dev (hd dev4) < f_pos'
                                        then dev4[0 := (hd dev4)\<lparr>size_dev := f_pos'\<rparr>]
                                        else dev4)
                            in \<lparr>w_ret = Ret count, w_dev = dev5, w_pos = f_pos'\<rparr>))))))))"

text \<open>
  \<^verbatim>\<open>scullc_llseek\<close>, \<^verbatim>\<open>scullp_llseek\<close>, \<^verbatim>\<open>scullv_llseek\<close>: the return value and the new
  \<^verbatim>\<open>filp->f_pos\<close>.
\<close>

definition scull_llseek :: "scull_dev list \<Rightarrow> nat \<Rightarrow> int \<Rightarrow> int \<Rightarrow> retval \<times> nat" where
  "scull_llseek dev f_pos off whence =
     (if whence \<noteq> 0 \<and> whence \<noteq> 1 \<and> whence \<noteq> 2 then (Err EINVAL, f_pos)
      else
        (let newpos = (if whence = 0 then off
                       else if whence = 1 then int f_pos + off
                       else int (size_dev (hd dev)) + off)
         in if newpos < 0 then (Err EINVAL, f_pos) else (Ret (nat newpos), nat newpos)))"

section \<open>Trim\<close>

record trim_result =
  t_ret :: retval
  t_dev :: "scull_dev list"
  t_blocks :: "block list"
  t_arrays :: nat
  t_nodes :: nat

text \<open>
  The inner loop of trim on one node: the blocks in the slots \<^verbatim>\<open>0 .. qset - 1\<close> of its
  array, which are given back to the allocator.
\<close>

definition node_blocks :: "nat \<Rightarrow> scull_dev \<Rightarrow> block list" where
  "node_blocks qs d =
     (case data d of None \<Rightarrow> [] | Some arr \<Rightarrow> List.map_filter (\<lambda>s. s) (take qs arr))"

text \<open>\<^verbatim>\<open>dev->size = 0; dev->qset = ..; dev->quantum = ..\<close> (or \<^verbatim>\<open>dev->order = ..\<close>).\<close>

definition reset_dev :: "variant \<Rightarrow> params \<Rightarrow> scull_dev \<Rightarrow> scull_dev" where
  "reset_dev v k d =
     (case v of
        Scullc \<Rightarrow> d\<lparr>data := None, size_dev := 0, qset := scull_qset k,
                     quantum := scull_quantum k\<rparr>
      | _ \<Rightarrow> d\<lparr>data := None, size_dev := 0, qset := scull_qset k,
                order := scull_order k\<rparr>)"

text \<open>
  \<^verbatim>\<open>scullc_trim\<close>, \<^verbatim>\<open>scullp_trim\<close>, \<^verbatim>\<open>scullv_trim\<close>. \<open>t_blocks\<close> are the blocks freed, in
  the order of the walk, \<open>t_arrays\<close> the number of pointer arrays and \<open>t_nodes\<close> the
  number of list nodes given to \<^verbatim>\<open>kfree\<close>. The inner loop runs to the \<^verbatim>\<open>qset\<close> of the
  device on every node; an array shorter than that is read outside its bounds.
\<close>

definition scull_trim :: "variant \<Rightarrow> params \<Rightarrow> scull_dev list \<Rightarrow> trim_result" where
  "scull_trim v k dev =
    (let d = hd dev; qs = qset d in
     if vmas d \<noteq> 0 then
       \<lparr>t_ret = Err EBUSY, t_dev = dev, t_blocks = [], t_arrays = 0, t_nodes = 0\<rparr>
     else if list_ex (\<lambda>n. case data n of None \<Rightarrow> False | Some arr \<Rightarrow> length arr < qs) dev then
       \<lparr>t_ret = Oops, t_dev = dev, t_blocks = [], t_arrays = 0, t_nodes = 0\<rparr>
     else
       \<lparr>t_ret = Ret 0,
        t_dev = [reset_dev v k d],
        t_blocks = concat (map (node_blocks qs) dev),
        t_arrays = length (filter (\<lambda>n. data n \<noteq> None) dev),
        t_nodes = length dev - 1\<rparr>)"

section \<open>Memory mapping (scullp, scullv)\<close>

text \<open>\<^verbatim>\<open>scullp_vma_open\<close>, \<^verbatim>\<open>scullv_vma_open\<close>: \<^verbatim>\<open>dev->vmas++\<close>.\<close>

definition scull_vma_open :: "scull_dev list \<Rightarrow> scull_dev list" where
  "scull_vma_open dev = dev[0 := (hd dev)\<lparr>vmas := vmas (hd dev) + 1\<rparr>]"

text \<open>\<^verbatim>\<open>scullp_vma_close\<close>, \<^verbatim>\<open>scullv_vma_close\<close>: \<^verbatim>\<open>dev->vmas--\<close>.\<close>

definition scull_vma_close :: "scull_dev list \<Rightarrow> scull_dev list" where
  "scull_vma_close dev = dev[0 := (hd dev)\<lparr>vmas := vmas (hd dev) - 1\<rparr>]"

text \<open>\<^verbatim>\<open>scullp_mmap\<close> refuses a device whose order is not 0.\<close>

definition scullp_mmap :: "scull_dev list \<Rightarrow> retval \<times> scull_dev list" where
  "scullp_mmap dev =
     (if order (hd dev) \<noteq> 0 then (Err ENODEV, dev) else (Ret 0, scull_vma_open dev))"

text \<open>\<^verbatim>\<open>scullv_mmap\<close> has no test.\<close>

definition scullv_mmap :: "scull_dev list \<Rightarrow> retval \<times> scull_dev list" where
  "scullv_mmap dev = (Ret 0, scull_vma_open dev)"

text \<open>
  The loop of \<^verbatim>\<open>scullp_vma_nopage\<close> and \<^verbatim>\<open>scullv_vma_nopage\<close>:
  \<^verbatim>\<open>for (ptr = dev; ptr && offset >= dev->qset;) { ptr = ptr->next; offset -= dev->qset; }\<close>
  The result is the rest of the list from \<^verbatim>\<open>ptr\<close> on (empty for a null pointer) and what
  is left of \<^verbatim>\<open>offset\<close>.
\<close>

fun nopage_walk :: "nat \<Rightarrow> scull_dev list \<Rightarrow> nat \<Rightarrow> scull_dev list \<times> nat" where
  "nopage_walk qs [] offset = ([], offset)"
| "nopage_walk qs (d # rest) offset =
     (if offset \<ge> qs then nopage_walk qs rest (offset - qs) else (d # rest, offset))"

datatype vm_fault = VM_FAULT_NONE | VM_FAULT_NOPAGE | VM_FAULT_OOPS

record vm_area =
  vm_start :: nat
  vm_pgoff :: nat

record fault_result =
  f_ret :: vm_fault
  f_page :: "nat option"
  f_refs :: "nat \<Rightarrow> nat"

text \<open>
  \<^verbatim>\<open>scullp_vma_nopage\<close> and \<^verbatim>\<open>scullv_vma_nopage\<close>. \<open>to_page\<close> is \<^verbatim>\<open>virt_to_page\<close> in
  scullp and \<^verbatim>\<open>vmalloc_to_page\<close> in scullv, from the address of a block to the number of
  its page; \<open>refs\<close> are the reference counts of the pages, which \<^verbatim>\<open>get_page\<close> increments.
  \<open>VM_FAULT_NONE\<close> is the return value 0, \<open>f_page\<close> is \<^verbatim>\<open>vmf->page\<close>, and
  \<open>VM_FAULT_OOPS\<close> marks a read outside the pointer array. The device is not written.
\<close>

definition scull_vma_nopage ::
  "params \<Rightarrow> (nat \<Rightarrow> nat) \<Rightarrow> scull_dev list \<Rightarrow> vm_area \<Rightarrow> nat \<Rightarrow> (nat \<Rightarrow> nat) \<Rightarrow> fault_result" where
  "scull_vma_nopage k to_page dev vma address refs =
    (let d = hd dev;
         offset = (address - vm_start vma) + vm_pgoff vma * 2 ^ PAGE_SHIFT k;
         stop = (\<lambda>r. \<lparr>f_ret = r, f_page = None, f_refs = refs\<rparr>)
     in
     if offset \<ge> size_dev d then stop VM_FAULT_NOPAGE
     else
       (let (ptr, offset) = nopage_walk (qset d) dev (offset div 2 ^ PAGE_SHIFT k) in
        (case ptr of
           [] \<Rightarrow> stop VM_FAULT_NOPAGE
         | p # _ \<Rightarrow>
             (case data p of
                None \<Rightarrow> stop VM_FAULT_NOPAGE
              | Some arr \<Rightarrow>
                  if \<not> offset < length arr then stop VM_FAULT_OOPS
                  else
                    (case arr ! offset of
                       None \<Rightarrow> stop VM_FAULT_NOPAGE
                     | Some blk \<Rightarrow>
                         (let page = to_page (addr blk) in
                          \<lparr>f_ret = VM_FAULT_NONE, f_page = Some page,
                           f_refs = refs(page := refs page + 1)\<rparr>))))))"

section \<open>Well-formed devices and the block of an offset\<close>

text \<open>
  What the code relies on without testing it: there is a device, its quantum and qset
  are positive (the divisions are defined), and every pointer array has \<^verbatim>\<open>qset\<close> slots,
  the \<^verbatim>\<open>qset\<close> of the device. \<^verbatim>\<open>scullc_init\<close> and its siblings establish it when the
  parameters are positive, and a successful write keeps it.
\<close>

definition wf :: "variant \<Rightarrow> params \<Rightarrow> scull_dev list \<Rightarrow> bool" where
  "wf v k dev \<longleftrightarrow>
     dev \<noteq> [] \<and> 0 < dev_quantum v k (hd dev) \<and> 0 < qset (hd dev) \<and>
     list_all (\<lambda>n. case data n of None \<Rightarrow> True | Some arr \<Rightarrow> length arr = qset (hd dev)) dev"

text \<open>
  The block that holds the byte at offset \<open>pos\<close>, looked up without changing anything:
  \<open>None\<close> when the list has no node \<^verbatim>\<open>item\<close>, the node has no pointer array, or the
  slot \<^verbatim>\<open>s_pos\<close> is empty (a hole).
\<close>

definition block_at :: "variant \<Rightarrow> params \<Rightarrow> scull_dev list \<Rightarrow> nat \<Rightarrow> block option" where
  "block_at v k dev pos =
    (let q = dev_quantum v k (hd dev);
         itemsize = q * qset (hd dev);
         item = pos div itemsize;
         s_pos = (pos mod itemsize) div q
     in
     if \<not> item < length dev then None
     else
       (case data (dev ! item) of
          None \<Rightarrow> None
        | Some arr \<Rightarrow> if s_pos < length arr then arr ! s_pos else None))"

section \<open>Facts about follow\<close>

lemma scull_follow_append:
  "dev \<noteq> [] \<Longrightarrow> scull_follow dev n = dev @ replicate (Suc n - length dev) zeroed"
proof (induction dev n rule: scull_follow.induct)
  case (3 d rest n)
  show ?case
  proof (cases rest)
    case Nil
    with 3 show ?thesis by (simp add: replicate_app_Cons_same)
  next
    case (Cons r rs)
    with 3 show ?thesis by simp
  qed
qed simp_all

lemma scull_follow_nth:
  "dev \<noteq> [] \<Longrightarrow> scull_follow dev n ! n = (if n < length dev then dev ! n else zeroed)"
  by (simp add: scull_follow_append nth_append)

lemma scull_follow_hd: "hd (scull_follow dev n) = hd dev"
  by (cases dev) (simp_all add: scull_follow_append)

lemma data_zeroed: "data zeroed = None"
  by (simp add: zeroed_def)


lemma s_pos_less:
  assumes "0 < (q::nat)" "0 < qs"
  shows "(pos mod (q * qs)) div q < qs"
proof -
  have "pos mod (q * qs) < q * qs" using assms by simp
  then show ?thesis using assms by (simp add: less_mult_imp_div_less mult.commute)
qed

lemma wf_nonempty: "wf v k dev \<Longrightarrow> dev \<noteq> []"
  by (simp add: wf_def)

lemma wf_itemsize: "wf v k dev \<Longrightarrow> dev_quantum v k (hd dev) * qset (hd dev) \<noteq> 0"
  by (simp add: wf_def)


section \<open>The device as a table of slots\<close>

text \<open>
  The pointer array of node \<open>i\<close> (\<open>None\<close> when the list is shorter or the node has no
  array), the device with the array of a node replaced after the walk to it, and the
  device with its size raised: the forms in which the proofs below see what read and
  write do to the list.
\<close>

definition slots :: "scull_dev list \<Rightarrow> nat \<Rightarrow> block option list option" where
  "slots dev i = (if i < length dev then data (dev ! i) else None)"

definition with_slots :: "scull_dev list \<Rightarrow> nat \<Rightarrow> block option list \<Rightarrow> scull_dev list" where
  "with_slots dev item arr =
     (scull_follow dev item)[item := (scull_follow dev item ! item)\<lparr>data := Some arr\<rparr>]"

definition with_size :: "scull_dev list \<Rightarrow> nat \<Rightarrow> scull_dev list" where
  "with_size dev sz = (if size_dev (hd dev) < sz then dev[0 := (hd dev)\<lparr>size_dev := sz\<rparr>] else dev)"

lemma block_at_slots:
  "block_at v k dev pos =
    (case slots dev (pos div (dev_quantum v k (hd dev) * qset (hd dev))) of
       None \<Rightarrow> None
     | Some arr \<Rightarrow>
         if (pos mod (dev_quantum v k (hd dev) * qset (hd dev))) div dev_quantum v k (hd dev)
              < length arr
         then arr ! ((pos mod (dev_quantum v k (hd dev) * qset (hd dev)))
                       div dev_quantum v k (hd dev))
         else None)"
  by (simp add: block_at_def slots_def Let_def)

lemma wf_slots:
  "wf v k dev \<longleftrightarrow>
     dev \<noteq> [] \<and> 0 < dev_quantum v k (hd dev) \<and> 0 < qset (hd dev) \<and>
     (\<forall>i arr. slots dev i = Some arr \<longrightarrow> length arr = qset (hd dev))"
  unfolding wf_def slots_def list_all_length
  by (auto split: option.splits)

lemma slots_follow: "dev \<noteq> [] \<Longrightarrow> slots (scull_follow dev n) i = slots dev i"
  by (auto simp: slots_def scull_follow_append nth_append data_zeroed)

lemma length_follow: "dev \<noteq> [] \<Longrightarrow> length (scull_follow dev n) = max (length dev) (Suc n)"
  by (simp add: scull_follow_append)

lemma slots_with_slots:
  "dev \<noteq> [] \<Longrightarrow> slots (with_slots dev item arr) i = (if i = item then Some arr else slots dev i)"
  by (auto simp: with_slots_def slots_def scull_follow_append nth_append data_zeroed)

lemma hd_with_slots:
  assumes "dev \<noteq> []"
  shows "quantum (hd (with_slots dev item arr)) = quantum (hd dev)"
    and "order (hd (with_slots dev item arr)) = order (hd dev)"
    and "qset (hd (with_slots dev item arr)) = qset (hd dev)"
    and "vmas (hd (with_slots dev item arr)) = vmas (hd dev)"
    and "size_dev (hd (with_slots dev item arr)) = size_dev (hd dev)"
    and "with_slots dev item arr \<noteq> []"
  using assms
  by (cases dev; cases item; simp add: with_slots_def scull_follow_append hd_conv_nth nth_append)+

lemma slots_with_size: "slots (with_size dev sz) i = slots dev i"
  by (cases dev; cases i) (auto simp: with_size_def slots_def)

lemma hd_with_size:
  assumes "dev \<noteq> []"
  shows "quantum (hd (with_size dev sz)) = quantum (hd dev)"
    and "order (hd (with_size dev sz)) = order (hd dev)"
    and "qset (hd (with_size dev sz)) = qset (hd dev)"
    and "vmas (hd (with_size dev sz)) = vmas (hd dev)"
    and "size_dev (hd (with_size dev sz)) = max (size_dev (hd dev)) sz"
    and "with_size dev sz \<noteq> []"
  using assms by (cases dev; simp add: with_size_def)+


text \<open>
  The address translation that read and write compute: the node of an offset, its slot
  in the node's pointer array, and its place in the block.
\<close>

definition item_of :: "variant \<Rightarrow> params \<Rightarrow> scull_dev list \<Rightarrow> nat \<Rightarrow> nat" where
  "item_of v k dev pos = pos div (dev_quantum v k (hd dev) * qset (hd dev))"

definition s_pos_of :: "variant \<Rightarrow> params \<Rightarrow> scull_dev list \<Rightarrow> nat \<Rightarrow> nat" where
  "s_pos_of v k dev pos =
     (pos mod (dev_quantum v k (hd dev) * qset (hd dev))) div dev_quantum v k (hd dev)"

definition q_pos_of :: "variant \<Rightarrow> params \<Rightarrow> scull_dev list \<Rightarrow> nat \<Rightarrow> nat" where
  "q_pos_of v k dev pos =
     (pos mod (dev_quantum v k (hd dev) * qset (hd dev))) mod dev_quantum v k (hd dev)"

lemma copy_from_user_ok:
  "fst (copy_from_user e buf n) = 0 \<Longrightarrow> snd (copy_from_user e buf n) = take n buf \<and> n \<le> length buf"
  by (auto simp: copy_from_user_def Let_def min_def max_def split: if_splits)

lemma scull_write_Ret:
  assumes R: "w_ret (scull_write v k e dev buf count f_pos) = Ret n"
  shows "\<exists>arr blk.
     ensure_array e (qset (hd dev))
       (scull_follow dev (item_of v k dev f_pos) ! item_of v k dev f_pos) = Some arr \<and>
     s_pos_of v k dev f_pos < length arr \<and>
     ensure_block v k e (scull_follow dev (item_of v k dev f_pos) ! item_of v k dev f_pos)
       (arr ! s_pos_of v k dev f_pos) = Some blk \<and>
     n = min count (dev_quantum v k (hd dev) - q_pos_of v k dev f_pos) \<and>
     (n \<noteq> 0 \<longrightarrow> q_pos_of v k dev f_pos + n \<le> length (bytes blk)) \<and>
     n \<le> length buf \<and> \<not> interrupted e \<and>
     dev_quantum v k (hd dev) * qset (hd dev) \<noteq> 0 \<and>
     w_pos (scull_write v k e dev buf count f_pos) = f_pos + n \<and>
     w_dev (scull_write v k e dev buf count f_pos) =
       with_size
         (with_slots dev (item_of v k dev f_pos)
            (arr[s_pos_of v k dev f_pos :=
                   Some (blk\<lparr>bytes := take (q_pos_of v k dev f_pos) (bytes blk) @ take n buf
                                         @ drop (q_pos_of v k dev f_pos + n) (bytes blk)\<rparr>)]))
         (f_pos + n)"
proof -
  let ?q = "dev_quantum v k (hd dev)"
  let ?item = "item_of v k dev f_pos"
  let ?s = "s_pos_of v k dev f_pos"
  let ?qp = "q_pos_of v k dev f_pos"
  let ?dptr = "scull_follow dev ?item ! ?item"
  let ?m = "min count (?q - ?qp)"
  note defs = scull_write_def Let_def item_of_def s_pos_of_def q_pos_of_def
  have ni: "\<not> interrupted e"
  proof
    assume "interrupted e"
    then show False using R by (simp add: defs)
  qed
  have nz: "?q * qset (hd dev) \<noteq> 0"
  proof
    assume "?q * qset (hd dev) = 0"
    then show False using R ni by (simp add: defs)
  qed
  have "ensure_array e (qset (hd dev)) ?dptr \<noteq> None"
  proof
    assume "ensure_array e (qset (hd dev)) ?dptr = None"
    then show False using R ni nz by (simp add: defs)
  qed
  then obtain arr where A: "ensure_array e (qset (hd dev)) ?dptr = Some arr"
    by blast
  have sp: "?s < length arr"
  proof (rule ccontr)
    assume "\<not> ?s < length arr"
    then show False using R ni nz A by (simp add: defs)
  qed
  have "ensure_block v k e ?dptr (arr ! ?s) \<noteq> None"
  proof
    assume "ensure_block v k e ?dptr (arr ! ?s) = None"
    then show False using R ni nz A sp by (simp add: defs)
  qed
  then obtain blk where B: "ensure_block v k e ?dptr (arr ! ?s) = Some blk"
    by blast
  define m where "m = min count (?q - ?qp)"
  have m: "(if ?q - f_pos mod (?q * qset (hd dev)) mod ?q < count
            then ?q - f_pos mod (?q * qset (hd dev)) mod ?q else count) = m"
    by (simp add: m_def min_def q_pos_of_def)
  have room: "(0 < m \<and> length (bytes blk) < f_pos mod (?q * qset (hd dev)) mod ?q + m) = False"
  proof -
    have False if "0 < m \<and> length (bytes blk) < f_pos mod (?q * qset (hd dev)) mod ?q + m"
      using that R ni nz A sp B by (simp add: defs m)
    then show ?thesis by blast
  qed
  have bad: "fst (copy_from_user e buf m) = 0"
  proof (rule ccontr)
    assume "fst (copy_from_user e buf m) \<noteq> 0"
    then show False using R ni nz A sp B by (simp add: defs m room case_prod_beta)
  qed
  note src = copy_from_user_ok[OF bad]
  have n: "n = m"
    using R ni nz A sp B bad by (simp add: defs m room case_prod_beta)
  have pos: "w_pos (scull_write v k e dev buf count f_pos) = f_pos + m"
    using ni nz A sp B bad by (simp add: defs m room case_prod_beta)
  have dev: "w_dev (scull_write v k e dev buf count f_pos) =
       with_size
         (with_slots dev ?item
            (arr[?s := Some (blk\<lparr>bytes := take ?qp (bytes blk) @ take m buf
                                         @ drop (?qp + m) (bytes blk)\<rparr>)]))
         (f_pos + m)"
    using ni nz A sp B bad src
    by (simp add: defs m room case_prod_beta with_size_def with_slots_def)
  show ?thesis
    using A sp B n room src ni nz pos dev by (auto simp: m_def q_pos_of_def)
qed

lemma dev_quantum_cong:
  "quantum a = quantum b \<Longrightarrow> order a = order b \<Longrightarrow> dev_quantum v k a = dev_quantum v k b"
  by (cases v) (simp_all add: dev_quantum_def)

text \<open>The block a write at \<open>f_pos\<close> copies into: the one that holds the offset, or a fresh one.\<close>

definition landing :: "variant \<Rightarrow> params \<Rightarrow> env \<Rightarrow> scull_dev list \<Rightarrow> nat \<Rightarrow> block option" where
  "landing v k e dev f_pos =
     ensure_block v k e (scull_follow dev (item_of v k dev f_pos) ! item_of v k dev f_pos)
       (block_at v k dev f_pos)"

lemma block_at_translated:
  "block_at v k dev pos =
    (case slots dev (item_of v k dev pos) of
       None \<Rightarrow> None
     | Some arr \<Rightarrow> if s_pos_of v k dev pos < length arr then arr ! s_pos_of v k dev pos else None)"
  by (simp add: block_at_slots item_of_def s_pos_of_def split: option.splits)

lemma data_follow_nth:
  "dev \<noteq> [] \<Longrightarrow> data (scull_follow dev n ! n) = slots dev n"
  by (simp add: scull_follow_nth slots_def data_zeroed)

lemma ensure_array_Some:
  assumes "ensure_array e qs dptr = Some arr"
  shows "arr = (case data dptr of Some a \<Rightarrow> a | None \<Rightarrow> replicate qs None)"
  using assms by (auto simp: ensure_array_def split: option.splits if_splits)

lemma translated_cong:
  assumes "quantum (hd a) = quantum (hd b)" "order (hd a) = order (hd b)" "qset (hd a) = qset (hd b)"
  shows "item_of v k a pos = item_of v k b pos"
    and "s_pos_of v k a pos = s_pos_of v k b pos"
    and "q_pos_of v k a pos = q_pos_of v k b pos"
    and "dev_quantum v k (hd a) = dev_quantum v k (hd b)"
  using assms dev_quantum_cong[OF assms(1,2), of v k]
  by (simp_all add: item_of_def s_pos_of_def q_pos_of_def)

lemma scull_write_Ret_view:
  assumes R: "w_ret (scull_write v k e dev buf count f_pos) = Ret n" and ne: "dev \<noteq> []"
  shows "\<exists>blk.
     landing v k e dev f_pos = Some blk \<and>
     (n \<noteq> 0 \<longrightarrow> q_pos_of v k dev f_pos + n \<le> length (bytes blk)) \<and>
     block_at v k (w_dev (scull_write v k e dev buf count f_pos)) f_pos =
       Some (blk\<lparr>bytes := take (q_pos_of v k dev f_pos) (bytes blk) @ take n buf
                             @ drop (q_pos_of v k dev f_pos + n) (bytes blk)\<rparr>) \<and>
     (\<forall>pos. item_of v k dev pos \<noteq> item_of v k dev f_pos \<or>
            s_pos_of v k dev pos \<noteq> s_pos_of v k dev f_pos \<longrightarrow>
        block_at v k (w_dev (scull_write v k e dev buf count f_pos)) pos = block_at v k dev pos)"
    and "w_dev (scull_write v k e dev buf count f_pos) \<noteq> []"
    and "quantum (hd (w_dev (scull_write v k e dev buf count f_pos))) = quantum (hd dev)"
    and "order (hd (w_dev (scull_write v k e dev buf count f_pos))) = order (hd dev)"
    and "qset (hd (w_dev (scull_write v k e dev buf count f_pos))) = qset (hd dev)"
    and "vmas (hd (w_dev (scull_write v k e dev buf count f_pos))) = vmas (hd dev)"
    and "size_dev (hd (w_dev (scull_write v k e dev buf count f_pos))) =
           max (size_dev (hd dev)) (f_pos + n)"
proof -
  let ?W = "scull_write v k e dev buf count f_pos"
  let ?item = "item_of v k dev f_pos"
  let ?s = "s_pos_of v k dev f_pos"
  let ?qp = "q_pos_of v k dev f_pos"
  let ?dptr = "scull_follow dev ?item ! ?item"
  from scull_write_Ret[OF R] obtain arr blk where
    A: "ensure_array e (qset (hd dev)) ?dptr = Some arr" and sp: "?s < length arr" and
    B: "ensure_block v k e ?dptr (arr ! ?s) = Some blk" and
    room: "n \<noteq> 0 \<longrightarrow> ?qp + n \<le> length (bytes blk)" and
    D: "w_dev ?W = with_size (with_slots dev ?item
            (arr[?s := Some (blk\<lparr>bytes := take ?qp (bytes blk) @ take n buf
                                         @ drop (?qp + n) (bytes blk)\<rparr>)])) (f_pos + n)"
    by blast
  let ?arr' = "arr[?s := Some (blk\<lparr>bytes := take ?qp (bytes blk) @ take n buf
                                         @ drop (?qp + n) (bytes blk)\<rparr>)]"
  let ?d1 = "with_slots dev ?item ?arr'"
  have ne1: "?d1 \<noteq> []" by (rule hd_with_slots(6)[OF ne])
  show ne': "w_dev ?W \<noteq> []" unfolding D by (rule hd_with_size(6)[OF ne1])
  show q': "quantum (hd (w_dev ?W)) = quantum (hd dev)"
    unfolding D by (simp add: hd_with_size(1)[OF ne1] hd_with_slots(1)[OF ne])
  show o': "order (hd (w_dev ?W)) = order (hd dev)"
    unfolding D by (simp add: hd_with_size(2)[OF ne1] hd_with_slots(2)[OF ne])
  show s': "qset (hd (w_dev ?W)) = qset (hd dev)"
    unfolding D by (simp add: hd_with_size(3)[OF ne1] hd_with_slots(3)[OF ne])
  show "vmas (hd (w_dev ?W)) = vmas (hd dev)"
    unfolding D by (simp add: hd_with_size(4)[OF ne1] hd_with_slots(4)[OF ne])
  show "size_dev (hd (w_dev ?W)) = max (size_dev (hd dev)) (f_pos + n)"
    unfolding D by (simp add: hd_with_size(5)[OF ne1] hd_with_slots(5)[OF ne])
  note tr = translated_cong[OF q' o' s', of v k]
  have sl: "slots (w_dev ?W) i = (if i = ?item then Some ?arr' else slots dev i)" for i
    unfolding D by (simp add: slots_with_size slots_with_slots[OF ne])
  have arr: "arr = (case slots dev ?item of Some a \<Rightarrow> a | None \<Rightarrow> replicate (qset (hd dev)) None)"
    using ensure_array_Some[OF A] by (simp add: data_follow_nth[OF ne])
  have old: "arr ! ?s = block_at v k dev f_pos"
    using sp by (auto simp: arr block_at_translated split: option.splits)
  have L: "landing v k e dev f_pos = Some blk"
    using B by (simp add: landing_def old)
  have here: "block_at v k (w_dev ?W) f_pos =
       Some (blk\<lparr>bytes := take ?qp (bytes blk) @ take n buf @ drop (?qp + n) (bytes blk)\<rparr>)"
    using sp by (simp add: block_at_translated tr sl)
  have other: "block_at v k (w_dev ?W) pos = block_at v k dev pos"
    if "item_of v k dev pos \<noteq> ?item \<or> s_pos_of v k dev pos \<noteq> ?s" for pos
    using that
    by (auto simp: block_at_translated tr sl arr split: option.splits)
  show "\<exists>blk.
     landing v k e dev f_pos = Some blk \<and>
     (n \<noteq> 0 \<longrightarrow> q_pos_of v k dev f_pos + n \<le> length (bytes blk)) \<and>
     block_at v k (w_dev (scull_write v k e dev buf count f_pos)) f_pos =
       Some (blk\<lparr>bytes := take (q_pos_of v k dev f_pos) (bytes blk) @ take n buf
                             @ drop (q_pos_of v k dev f_pos + n) (bytes blk)\<rparr>) \<and>
     (\<forall>pos. item_of v k dev pos \<noteq> item_of v k dev f_pos \<or>
            s_pos_of v k dev pos \<noteq> s_pos_of v k dev f_pos \<longrightarrow>
        block_at v k (w_dev (scull_write v k e dev buf count f_pos)) pos = block_at v k dev pos)"
    using L room here other by blast
qed

lemma translated_flat:
  "item_of v k dev pos = (pos div dev_quantum v k (hd dev)) div qset (hd dev)"
  "s_pos_of v k dev pos = (pos div dev_quantum v k (hd dev)) mod qset (hd dev)"
  "q_pos_of v k dev pos = pos mod dev_quantum v k (hd dev)"
  by (cases "dev_quantum v k (hd dev) = 0";
      simp add: item_of_def s_pos_of_def q_pos_of_def div_mult2_eq mod_mult2_eq)+

lemma same_block_iff:
  "item_of v k dev p = item_of v k dev p' \<and> s_pos_of v k dev p = s_pos_of v k dev p' \<longleftrightarrow>
   p div dev_quantum v k (hd dev) = p' div dev_quantum v k (hd dev)"
  unfolding translated_flat
  by (metis div_mult_mod_eq)

lemma in_block:
  assumes "f_pos \<le> p" "p < f_pos + n" "n \<le> (q::nat) - f_pos mod q"
  shows "p div q = f_pos div q" "p mod q = f_pos mod q + (p - f_pos)"
proof -
  have q: "q \<noteq> 0" using assms by (cases "q = 0") auto
  let ?i = "p - f_pos"
  have i: "f_pos mod q + ?i < q" using assms by linarith
  have p: "p = (f_pos mod q + ?i) + (f_pos div q) * q"
    using assms(1) div_mult_mod_eq[of f_pos q] by linarith
  have "p div q = f_pos div q + (f_pos mod q + ?i) div q"
    by (subst p) (simp only: div_mult_self1[OF q])
  then show "p div q = f_pos div q" using i by simp
  have "p mod q = (f_pos mod q + ?i) mod q"
    by (subst p) (simp only: mod_mult_self1)
  then show "p mod q = f_pos mod q + (p - f_pos)" using i by simp
qed

definition overlay :: "'a list \<Rightarrow> nat \<Rightarrow> 'a list \<Rightarrow> 'a list" where
  "overlay xs a ys = take a xs @ ys @ drop (a + length ys) xs"

lemma length_overlay: "a + length ys \<le> length xs \<Longrightarrow> length (overlay xs a ys) = length xs"
  by (simp add: overlay_def)

lemma nth_overlay:
  assumes "a + length ys \<le> length xs" "j < length xs"
  shows "overlay xs a ys ! j = (if a \<le> j \<and> j < a + length ys then ys ! (j - a) else xs ! j)"
  using assms by (auto simp: overlay_def nth_append min_def)

lemma nth_overlay_in:
  "a + length ys \<le> length xs \<Longrightarrow> i < length ys \<Longrightarrow> overlay xs a ys ! (a + i) = ys ! i"
  by (simp add: nth_overlay)

lemma nth_overlay_out:
  "a + length ys \<le> length xs \<Longrightarrow> j < length xs \<Longrightarrow> \<not> (a \<le> j \<and> j < a + length ys) \<Longrightarrow>
   overlay xs a ys ! j = xs ! j"
  by (auto simp add: nth_overlay)

lemma overlay_Nil: "overlay xs a [] = xs"
  by (simp add: overlay_def)


text \<open>The byte stored at an offset, when its block is there and long enough.\<close>

definition byte_at :: "variant \<Rightarrow> params \<Rightarrow> scull_dev list \<Rightarrow> nat \<Rightarrow> byte option" where
  "byte_at v k dev pos =
     (case block_at v k dev pos of
        None \<Rightarrow> None
      | Some blk \<Rightarrow>
          if q_pos_of v k dev pos < length (bytes blk)
          then Some (bytes blk ! q_pos_of v k dev pos) else None)"

lemma byte_at_Some:
  "byte_at v k dev p = Some b \<longleftrightarrow>
     (\<exists>blk. block_at v k dev p = Some blk \<and> q_pos_of v k dev p < length (bytes blk) \<and>
            bytes blk ! q_pos_of v k dev p = b)"
  by (auto simp: byte_at_def split: option.splits)

lemma block_at_same_block:
  "item_of v k dev p = item_of v k dev p' \<Longrightarrow> s_pos_of v k dev p = s_pos_of v k dev p' \<Longrightarrow>
   block_at v k dev p = block_at v k dev p'"
  by (simp add: block_at_translated split: option.splits)

lemma ensure_block_Some: "ensure_block v k e dptr (Some b) = Some b"
  by (simp add: ensure_block_def)

lemma byte_at_write:
  assumes R: "w_ret (scull_write v k e dev buf count f_pos) = Ret n" and ne: "dev \<noteq> []"
  shows "f_pos \<le> p \<and> p < f_pos + n \<Longrightarrow>
           byte_at v k (w_dev (scull_write v k e dev buf count f_pos)) p = Some (buf ! (p - f_pos))"
    and "\<not> (f_pos \<le> p \<and> p < f_pos + n) \<Longrightarrow> byte_at v k dev p = Some b \<Longrightarrow>
           byte_at v k (w_dev (scull_write v k e dev buf count f_pos)) p = Some b"
proof -
  let ?W = "scull_write v k e dev buf count f_pos"
  let ?q = "dev_quantum v k (hd dev)"
  let ?qp = "q_pos_of v k dev f_pos"
  from scull_write_Ret[OF R] have
    n: "n = min count (?q - ?qp)" and nb: "n \<le> length buf" by blast+
  note V = scull_write_Ret_view[OF R ne]
  from V(1) obtain blk where
    L: "landing v k e dev f_pos = Some blk" and
    room: "n \<noteq> 0 \<longrightarrow> ?qp + n \<le> length (bytes blk)" and
    here: "block_at v k (w_dev ?W) f_pos =
       Some (blk\<lparr>bytes := take ?qp (bytes blk) @ take n buf @ drop (?qp + n) (bytes blk)\<rparr>)" and
    other: "\<And>pos. item_of v k dev pos \<noteq> item_of v k dev f_pos \<or>
            s_pos_of v k dev pos \<noteq> s_pos_of v k dev f_pos \<Longrightarrow>
        block_at v k (w_dev ?W) pos = block_at v k dev pos"
    by blast
  note tr = translated_cong[OF V(3) V(4) V(5), of v k]
  have sp: "take ?qp (bytes blk) @ take n buf @ drop (?qp + n) (bytes blk) =
              overlay (bytes blk) ?qp (take n buf)"
    using nb by (simp add: overlay_def min_def)
  have ln: "length (take n buf) = n" using nb by simp
  {
    assume p: "f_pos \<le> p \<and> p < f_pos + n"
    define i where "i = p - f_pos"
    have pi: "p = f_pos + i" and i: "i < n" using p by (auto simp add: i_def)
    then have n0: "n \<noteq> 0" by auto
    have le: "n \<le> ?q - f_pos mod ?q" using n by (simp add: translated_flat)
    from p have d: "p div ?q = f_pos div ?q" and m: "p mod ?q = f_pos mod ?q + i"
      using in_block[OF _ _ le, of p] by (auto simp: i_def)
    have sb: "item_of v k dev p = item_of v k dev f_pos \<and> s_pos_of v k dev p = s_pos_of v k dev f_pos"
      using d by (simp add: same_block_iff)
    have qp: "q_pos_of v k dev p = ?qp + i"
      using m by (simp add: translated_flat)
    have b: "block_at v k (w_dev ?W) p = block_at v k (w_dev ?W) f_pos"
      using sb by (intro block_at_same_block) (simp_all add: tr)
    have len: "?qp + length (take n buf) \<le> length (bytes blk)" using room n0 ln by simp
    have nth: "overlay (bytes blk) ?qp (take n buf) ! (?qp + i) = buf ! i"
      using nth_overlay_in[OF len, of i] i ln by simp
    have j': "?qp + i < length (overlay (bytes blk) ?qp (take n buf))"
      using room n0 i by (simp add: length_overlay[OF len])
    have "byte_at v k (w_dev ?W) p = Some (buf ! i)"
      unfolding byte_at_Some b here tr
      using j' nth by (simp add: sp qp)
    then show "byte_at v k (w_dev ?W) p = Some (buf ! (p - f_pos))" by (simp add: i_def)
  }
  {
    assume np: "\<not> (f_pos \<le> p \<and> p < f_pos + n)" and old: "byte_at v k dev p = Some b"
    show "byte_at v k (w_dev ?W) p = Some b"
    proof (cases "item_of v k dev p = item_of v k dev f_pos \<and> s_pos_of v k dev p = s_pos_of v k dev f_pos")
      case False
      then have "block_at v k (w_dev ?W) p = block_at v k dev p" by (intro other) blast
      then show ?thesis using old by (simp add: byte_at_Some tr)
    next
      case True
      then have same: "block_at v k dev p = block_at v k dev f_pos"
        by (intro block_at_same_block) simp_all
      from old obtain b0 where b0: "block_at v k dev p = Some b0"
        and j: "q_pos_of v k dev p < length (bytes b0)" and bb: "bytes b0 ! q_pos_of v k dev p = b"
        by (auto simp: byte_at_Some)
      have blk: "blk = b0" using L b0 same by (simp add: landing_def ensure_block_Some)
      have b': "block_at v k (w_dev ?W) p = block_at v k (w_dev ?W) f_pos"
        using True by (intro block_at_same_block) (simp_all add: tr)
      show ?thesis
      proof (cases "n = 0")
        case True
        then show ?thesis using old b0 j bb
          by (simp add: byte_at_Some b' here tr blk)
      next
        case False
        then have len: "?qp + length (take n buf) \<le> length (bytes blk)" using room ln by simp
        have d: "p div ?q = f_pos div ?q" using True by (simp add: same_block_iff)
        have q0: "?q \<noteq> 0" using scull_write_Ret[OF R] by auto
        have "p = ?q * (p div ?q) + p mod ?q" "f_pos = ?q * (f_pos div ?q) + f_pos mod ?q" by simp_all
        then have out: "\<not> (?qp \<le> q_pos_of v k dev p \<and> q_pos_of v k dev p < ?qp + n)"
          using np d unfolding translated_flat by (metis add.assoc add_le_cancel_left nat_add_left_cancel_less)
        have j2: "q_pos_of v k dev p < length (bytes blk)" using j blk by simp
        have out': "\<not> (?qp \<le> q_pos_of v k dev p \<and> q_pos_of v k dev p < ?qp + length (take n buf))"
          using out ln by simp
        show ?thesis
          unfolding byte_at_Some b' here tr
          using j2 bb nth_overlay_out[OF len j2 out']
          by (simp add: sp blk[symmetric] length_overlay[OF len])
      qed
    qed
  }
qed

lemma ensure_array_wf:
  assumes "wf v k dev" "\<not> kmalloc_fails e"
  shows "\<exists>arr. ensure_array e (qset (hd dev))
            (scull_follow dev (item_of v k dev f_pos) ! item_of v k dev f_pos) = Some arr \<and>
          length arr = qset (hd dev)"
proof -
  have ne: "dev \<noteq> []" using assms(1) by (rule wf_nonempty)
  show ?thesis
  proof (cases "slots dev (item_of v k dev f_pos)")
    case None
    then show ?thesis using assms(2) by (simp add: ensure_array_def data_follow_nth[OF ne])
  next
    case (Some a)
    then have "length a = qset (hd dev)" using assms(1) by (simp add: wf_slots)
    then show ?thesis using Some by (simp add: ensure_array_def data_follow_nth[OF ne])
  qed
qed

lemma s_pos_of_less: "wf v k dev \<Longrightarrow> s_pos_of v k dev pos < qset (hd dev)"
  unfolding s_pos_of_def by (rule s_pos_less) (simp_all add: wf_def)

lemma q_pos_of_less: "wf v k dev \<Longrightarrow> q_pos_of v k dev pos < dev_quantum v k (hd dev)"
  by (simp add: translated_flat wf_def)

text \<open>
  When nothing fails in the kernel, the user buffer holds the bytes asked for and the
  block has room for them, a write on a well-formed device succeeds.
\<close>

lemma scull_write_succeeds:
  assumes wf: "wf v k dev" and ni: "\<not> interrupted e" and km: "\<not> kmalloc_fails e"
    and L: "landing v k e dev f_pos = Some blk"
    and n: "n = min count (dev_quantum v k (hd dev) - q_pos_of v k dev f_pos)"
    and room: "n \<noteq> 0 \<longrightarrow> q_pos_of v k dev f_pos + n \<le> length (bytes blk)"
    and src: "n \<noteq> 0 \<longrightarrow> uncopied e = 0 \<and> n \<le> length buf"
  shows "w_ret (scull_write v k e dev buf count f_pos) = Ret n"
proof -
  let ?q = "dev_quantum v k (hd dev)"
  let ?item = "item_of v k dev f_pos"
  let ?s = "s_pos_of v k dev f_pos"
  let ?dptr = "scull_follow dev ?item ! ?item"
  note defs = scull_write_def Let_def item_of_def s_pos_of_def q_pos_of_def
  have ne: "dev \<noteq> []" using wf by (rule wf_nonempty)
  have nz: "?q * qset (hd dev) \<noteq> 0" using wf by (rule wf_itemsize)
  from ensure_array_wf[OF wf km] obtain arr where
    A: "ensure_array e (qset (hd dev)) ?dptr = Some arr" and la: "length arr = qset (hd dev)"
    by blast
  have sp: "?s < length arr" using s_pos_of_less[OF wf] la by simp
  have arr: "arr = (case slots dev ?item of Some a \<Rightarrow> a | None \<Rightarrow> replicate (qset (hd dev)) None)"
    using ensure_array_Some[OF A] by (simp add: data_follow_nth[OF ne])
  have old: "arr ! ?s = block_at v k dev f_pos"
    using sp by (auto simp: arr block_at_translated split: option.splits)
  have B: "ensure_block v k e ?dptr (arr ! ?s) = Some blk"
    using L by (simp add: landing_def old)
  have m: "(if ?q - f_pos mod (?q * qset (hd dev)) mod ?q < count
            then ?q - f_pos mod (?q * qset (hd dev)) mod ?q else count) = n"
    by (simp add: n min_def q_pos_of_def)
  have room': "(0 < n \<and> length (bytes blk) < f_pos mod (?q * qset (hd dev)) mod ?q + n) = False"
    using room by (auto simp: q_pos_of_def)
  have bad: "fst (copy_from_user e buf n) = 0"
    using src by (cases "n = 0") (auto simp: copy_from_user_def Let_def)
  show ?thesis
    using ni nz A sp B bad by (simp add: defs m room' case_prod_beta)
qed

lemma wf_write_Ret:
  assumes R: "w_ret (scull_write v k e dev buf count f_pos) = Ret n" and wf: "wf v k dev"
  shows "wf v k (w_dev (scull_write v k e dev buf count f_pos))"
proof -
  let ?W = "scull_write v k e dev buf count f_pos"
  let ?item = "item_of v k dev f_pos"
  let ?s = "s_pos_of v k dev f_pos"
  let ?dptr = "scull_follow dev ?item ! ?item"
  have ne: "dev \<noteq> []" using wf by (rule wf_nonempty)
  from scull_write_Ret[OF R] obtain arr blk' where
    A: "ensure_array e (qset (hd dev)) ?dptr = Some arr" and
    D: "w_dev ?W = with_size (with_slots dev ?item (arr[?s := Some blk'])) (f_pos + n)"
    by blast
  note V = scull_write_Ret_view[OF R ne]
  note tr = translated_cong[OF V(3) V(4) V(5), of v k]
  have sl: "slots (w_dev ?W) i = (if i = ?item then Some (arr[?s := Some blk']) else slots dev i)" for i
    unfolding D by (simp add: slots_with_size slots_with_slots[OF ne])
  have arr: "arr = (case slots dev ?item of Some a \<Rightarrow> a | None \<Rightarrow> replicate (qset (hd dev)) None)"
    using ensure_array_Some[OF A] by (simp add: data_follow_nth[OF ne])
  have la: "length arr = qset (hd dev)"
    using wf by (auto simp: arr wf_slots split: option.splits)
  show ?thesis
    unfolding wf_slots[of v k "w_dev ?W"]
    using wf V(2) la by (auto simp: tr V(5) sl wf_slots split: if_splits)
qed

lemma landing_cases:
  "landing v k e dev f_pos =
     (case block_at v k dev f_pos of
        Some b \<Rightarrow> Some b
      | None \<Rightarrow>
          (case block_alloc e of
             None \<Rightarrow> None
           | Some a \<Rightarrow>
               Some \<lparr>addr = a,
                     bytes = replicate (new_block_len v k
                       (scull_follow dev (item_of v k dev f_pos) ! item_of v k dev f_pos)) 0\<rparr>))"
  by (simp add: landing_def ensure_block_def)


section \<open>Facts about trim\<close>









section \<open>Facts about the page-fault handler\<close>





lemma r_dev_cases:
  "r_dev (scull_read v k e dev count f_pos) = dev \<or>
   r_dev (scull_read v k e dev count f_pos) =
     scull_follow dev (f_pos div (dev_quantum v k (hd dev) * qset (hd dev)))"
  by (simp add: scull_read_def Let_def split: option.splits prod.splits)


lemma w_dev_cases:
  "w_dev (scull_write v k e dev buf count f_pos) = dev \<or>
   w_dev (scull_write v k e dev buf count f_pos) = scull_follow dev (item_of v k dev f_pos) \<or>
   (\<exists>arr. w_dev (scull_write v k e dev buf count f_pos) =
            with_slots dev (item_of v k dev f_pos) arr) \<or>
   (\<exists>arr n. w_ret (scull_write v k e dev buf count f_pos) = Ret n \<and>
            w_dev (scull_write v k e dev buf count f_pos) =
            with_size (with_slots dev (item_of v k dev f_pos) arr) (f_pos + n))"
proof -
  let ?W = "scull_write v k e dev buf count f_pos"
  let ?q = "dev_quantum v k (hd dev)"
  let ?item = "item_of v k dev f_pos"
  let ?s = "s_pos_of v k dev f_pos"
  let ?dptr = "scull_follow dev ?item ! ?item"
  note defs = scull_write_def Let_def item_of_def s_pos_of_def q_pos_of_def
  define m where "m = min count (?q - q_pos_of v k dev f_pos)"
  have m: "(if ?q - f_pos mod (?q * qset (hd dev)) mod ?q < count
            then ?q - f_pos mod (?q * qset (hd dev)) mod ?q else count) = m"
    by (simp add: m_def min_def q_pos_of_def)
  show ?thesis
  proof (cases "interrupted e \<or> ?q * qset (hd dev) = 0")
    case True
    then have "w_dev ?W = dev" by (auto simp: defs)
    then show ?thesis by blast
  next
    case ok: False
    show ?thesis
    proof (cases "ensure_array e (qset (hd dev)) ?dptr")
      case None
      then have "w_dev ?W = scull_follow dev ?item" using ok by (simp add: defs)
      then show ?thesis by blast
    next
      case A: (Some arr)
      show ?thesis
      proof (cases "?s < length arr")
        case False
        then have "w_dev ?W = with_slots dev ?item arr"
          using ok A by (simp add: defs with_slots_def)
        then show ?thesis by blast
      next
        case sp: True
        show ?thesis
        proof (cases "ensure_block v k e ?dptr (arr ! ?s)")
          case None
          then have "w_dev ?W = with_slots dev ?item arr"
            using ok A sp by (simp add: defs with_slots_def)
          then show ?thesis by blast
        next
          case B: (Some blk)
          show ?thesis
          proof (cases "0 < m \<and> length (bytes blk) < f_pos mod (?q * qset (hd dev)) mod ?q + m")
            case True
            then have "w_dev ?W = with_slots dev ?item (arr[?s := Some blk])"
              using ok A sp B by (simp add: defs m with_slots_def)
            then show ?thesis by blast
          next
            case False
            then have room: "(0 < m \<and> length (bytes blk)
                 < f_pos mod (?q * qset (hd dev)) mod ?q + m) = False"
              by blast
            let ?arr' = "arr[?s := Some (blk\<lparr>bytes :=
                 take (q_pos_of v k dev f_pos) (bytes blk) @ snd (copy_from_user e buf m)
                   @ drop (q_pos_of v k dev f_pos + m) (bytes blk)\<rparr>)]"
            show ?thesis
            proof (cases "fst (copy_from_user e buf m) = 0")
              case False
              then have "w_dev ?W = with_slots dev ?item ?arr'"
                using ok A sp B by (simp add: defs m room case_prod_beta with_slots_def)
              then show ?thesis by blast
            next
              case True
              then have "w_ret ?W = Ret m \<and>
                w_dev ?W = with_size (with_slots dev ?item ?arr') (f_pos + m)"
                using ok A sp B
                by (simp add: defs m room case_prod_beta with_slots_def with_size_def)
              then show ?thesis by blast
            qed
          qed
        qed
      qed
    qed
  qed
qed

lemma write_keeps_head:
  assumes "dev \<noteq> []"
  shows "w_dev (scull_write v k e dev buf count f_pos) \<noteq> []"
    and "size_dev (hd dev) \<le> size_dev (hd (w_dev (scull_write v k e dev buf count f_pos)))"
    and "quantum (hd (w_dev (scull_write v k e dev buf count f_pos))) = quantum (hd dev)"
    and "order (hd (w_dev (scull_write v k e dev buf count f_pos))) = order (hd dev)"
    and "qset (hd (w_dev (scull_write v k e dev buf count f_pos))) = qset (hd dev)"
    and "vmas (hd (w_dev (scull_write v k e dev buf count f_pos))) = vmas (hd dev)"
proof -
  let ?W = "scull_write v k e dev buf count f_pos"
  let ?item = "item_of v k dev f_pos"
  have f: "scull_follow dev ?item \<noteq> []" using assms by (simp add: scull_follow_append)
  note ws = hd_with_slots[OF assms]
  have wz: "with_slots dev ?item arr \<noteq> []" for arr by (rule ws(6))
  note sz = hd_with_size[OF wz]
  from w_dev_cases[of v k e dev buf count f_pos]
  show "w_dev ?W \<noteq> []" using assms f wz sz(6) by auto
  from w_dev_cases[of v k e dev buf count f_pos]
  show "size_dev (hd dev) \<le> size_dev (hd (w_dev ?W))"
    by (auto simp: scull_follow_hd ws(5) sz(5))
  from w_dev_cases[of v k e dev buf count f_pos]
  show "quantum (hd (w_dev ?W)) = quantum (hd dev)"
    by (auto simp: scull_follow_hd ws(1) sz(1))
  from w_dev_cases[of v k e dev buf count f_pos]
  show "order (hd (w_dev ?W)) = order (hd dev)"
    by (auto simp: scull_follow_hd ws(2) sz(2))
  from w_dev_cases[of v k e dev buf count f_pos]
  show "qset (hd (w_dev ?W)) = qset (hd dev)"
    by (auto simp: scull_follow_hd ws(3) sz(3))
  from w_dev_cases[of v k e dev buf count f_pos]
  show "vmas (hd (w_dev ?W)) = vmas (hd dev)"
    by (auto simp: scull_follow_hd ws(4) sz(4))
qed

lemma read_keeps_head:
  "hd (r_dev (scull_read v k e dev count f_pos)) = hd dev"
  "dev \<noteq> [] \<Longrightarrow> r_dev (scull_read v k e dev count f_pos) \<noteq> []"
  using r_dev_cases[of v k e dev count f_pos]
  by (auto simp: scull_follow_hd scull_follow_append)

lemma block_at_SomeD:
  assumes "block_at v k dev pos = Some blk"
  shows "item_of v k dev pos < length dev"
    and "\<exists>arr. data (dev ! item_of v k dev pos) = Some arr \<and> s_pos_of v k dev pos < length arr \<and>
               arr ! s_pos_of v k dev pos = Some blk"
  using assms
  by (auto simp: block_at_translated slots_def split: option.splits if_splits)

lemma copy_to_user_ok: "uncopied e = 0 \<Longrightarrow> copy_to_user e src n = (0, take n src)"
  by (simp add: copy_to_user_def)

lemma scull_read_block:
  assumes wf: "wf v k dev" and ni: "\<not> interrupted e" and un: "uncopied e = 0"
    and sz: "f_pos \<le> size_dev (hd dev)"
    and B: "block_at v k dev f_pos = Some blk"
    and n: "n = min (min count (size_dev (hd dev) - f_pos))
                    (dev_quantum v k (hd dev) - q_pos_of v k dev f_pos)"
    and room: "n \<noteq> 0 \<longrightarrow> q_pos_of v k dev f_pos + n \<le> length (bytes blk)"
  shows "scull_read v k e dev count f_pos =
           \<lparr>r_ret = Ret n, r_out = take n (drop (q_pos_of v k dev f_pos) (bytes blk)),
            r_dev = dev, r_pos = f_pos + n\<rparr>"
proof -
  let ?q = "dev_quantum v k (hd dev)"
  let ?is = "?q * qset (hd dev)"
  let ?item = "f_pos div ?is"
  have ne: "dev \<noteq> []" using wf by (rule wf_nonempty)
  have nz: "?is \<noteq> 0" using wf by (rule wf_itemsize)
  from block_at_SomeD[OF B] obtain arr where
    it: "?item < length dev" and A: "data (dev ! ?item) = Some arr" and
    sp: "f_pos mod ?is div ?q < length arr" and
    S: "arr ! (f_pos mod ?is div ?q) = Some blk"
    by (auto simp: item_of_def s_pos_of_def)
  have fo: "scull_follow dev ?item = dev"
    using it by (simp add: scull_follow_append[OF ne])
  have c1: "(if size_dev (hd dev) < f_pos + count then size_dev (hd dev) - f_pos else count)
              = min count (size_dev (hd dev) - f_pos)"
    using sz by (auto simp add: min_def)
  define c where "c = min count (size_dev (hd dev) - f_pos)"
  have c2: "(if ?q - f_pos mod ?is mod ?q < c then ?q - f_pos mod ?is mod ?q else c) = n"
    by (simp add: n c_def min_def q_pos_of_def)
  have room': "(0 < n \<and> length (bytes blk) < f_pos mod ?is mod ?q + n) = False"
    using room by (auto simp: q_pos_of_def)
  have nb: "\<not> size_dev (hd dev) < f_pos" using sz by simp
  show ?thesis
    using ni nz nb
    by (simp add: scull_read_def Let_def fo A sp S c1 c_def[symmetric] c2 room'
          copy_to_user_ok[OF un] q_pos_of_def)
qed

text \<open>
  The loop of a caller that writes a whole buffer: each call is given what is left, and
  the loop ends when nothing is left or a call returns an error or 0. \<open>E\<close> tells what
  the call made at a position meets in the kernel. The result is the total written, or
  the error that stopped the loop.
\<close>

function write_all ::
  "variant \<Rightarrow> params \<Rightarrow> (nat \<Rightarrow> env) \<Rightarrow> scull_dev list \<Rightarrow> byte list \<Rightarrow> nat \<Rightarrow> write_result" where
  "write_all v k E dev buf f_pos =
     (if buf = [] then \<lparr>w_ret = Ret 0, w_dev = dev, w_pos = f_pos\<rparr>
      else
        (let W = scull_write v k (E f_pos) dev buf (length buf) f_pos in
         case w_ret W of
           Ret n \<Rightarrow>
             if n = 0 then W
             else
               (let W' = write_all v k E (w_dev W) (drop n buf) (w_pos W) in
                case w_ret W' of Ret m \<Rightarrow> W'\<lparr>w_ret := Ret (n + m)\<rparr> | _ \<Rightarrow> W')
         | _ \<Rightarrow> W))"
  by pat_completeness auto
termination
  by (relation "measure (\<lambda>(v, k, E, dev, buf, f_pos). length buf)") auto

text \<open>The loop of a caller that reads \<open>count\<close> bytes, in the same way.\<close>

function read_all ::
  "variant \<Rightarrow> params \<Rightarrow> (nat \<Rightarrow> env) \<Rightarrow> scull_dev list \<Rightarrow> nat \<Rightarrow> nat \<Rightarrow> read_result" where
  "read_all v k E dev count f_pos =
     (if count = 0 then \<lparr>r_ret = Ret 0, r_out = [], r_dev = dev, r_pos = f_pos\<rparr>
      else
        (let R = scull_read v k (E f_pos) dev count f_pos in
         case r_ret R of
           Ret n \<Rightarrow>
             if n = 0 then R
             else
               (let R' = read_all v k E (r_dev R) (count - n) (r_pos R) in
                R'\<lparr>r_ret := (case r_ret R' of Ret m \<Rightarrow> Ret (n + m) | r \<Rightarrow> r),
                   r_out := r_out R @ r_out R'\<rparr>)
         | _ \<Rightarrow> R))"
  by pat_completeness auto
termination
  by (relation "measure (\<lambda>(v, k, E, dev, count, f_pos). count)") auto

declare write_all.simps [simp del] read_all.simps [simp del]

lemma byte_at_run:
  assumes wf: "wf v k dev"
    and all: "\<And>i. i < n \<Longrightarrow> byte_at v k dev (f_pos + i) = Some (xs ! i)"
    and n: "n \<le> dev_quantum v k (hd dev) - q_pos_of v k dev f_pos" and n0: "0 < n"
    and B: "block_at v k dev f_pos = Some blk"
  shows "q_pos_of v k dev f_pos + n \<le> length (bytes blk)"
    and "take n (drop (q_pos_of v k dev f_pos) (bytes blk)) = take n xs \<or> length xs < n"
proof -
  let ?q = "dev_quantum v k (hd dev)"
  let ?qp = "q_pos_of v k dev f_pos"
  have le: "n \<le> ?q - f_pos mod ?q" using n by (simp add: translated_flat)
  have at: "block_at v k dev (f_pos + i) = Some blk \<and> q_pos_of v k dev (f_pos + i) = ?qp + i"
    if "i < n" for i
  proof -
    from in_block[OF _ _ le, of "f_pos + i"] that
    have d: "(f_pos + i) div ?q = f_pos div ?q" and m: "(f_pos + i) mod ?q = f_pos mod ?q + i"
      by simp_all
    have "block_at v k dev (f_pos + i) = block_at v k dev f_pos"
      using d same_block_iff[of v k dev "f_pos + i" f_pos] by (intro block_at_same_block) simp_all
    then show ?thesis using B m by (simp add: translated_flat)
  qed
  have nth: "?qp + i < length (bytes blk) \<and> bytes blk ! (?qp + i) = xs ! i" if "i < n" for i
    using all[OF that] at[OF that] by (simp add: byte_at_Some)
  have "?qp + (n - 1) < length (bytes blk)" using nth[of "n - 1"] n0 by simp
  then show len: "?qp + n \<le> length (bytes blk)" using n0 by linarith
  show "take n (drop ?qp (bytes blk)) = take n xs \<or> length xs < n"
  proof (cases "length xs < n")
    case False
    have "take n (drop ?qp (bytes blk)) = take n xs"
    proof (rule nth_equalityI)
      show "length (take n (drop ?qp (bytes blk))) = length (take n xs)"
        using len False by simp
    next
      fix i assume "i < length (take n (drop ?qp (bytes blk)))"
      then have i: "i < n" by simp
      then show "take n (drop ?qp (bytes blk)) ! i = take n xs ! i"
        using nth[OF i] len by simp
    qed
    then show ?thesis ..
  qed simp
qed


lemma read_all_stored:
  assumes wf: "wf v k dev"
    and E: "\<And>p. \<not> interrupted (E p) \<and> uncopied (E p) = 0"
    and len: "length xs = count" and sz: "f_pos + count \<le> size_dev (hd dev)"
    and all: "\<And>i. i < count \<Longrightarrow> byte_at v k dev (f_pos + i) = Some (xs ! i)"
  shows "read_all v k E dev count f_pos =
           \<lparr>r_ret = Ret count, r_out = xs, r_dev = dev, r_pos = f_pos + count\<rparr>"
  using len sz all
proof (induction count arbitrary: xs f_pos rule: less_induct)
  case (less count)
  show ?case
  proof (cases "count = 0")
    case True
    then show ?thesis using less.prems(1) by (simp add: read_all.simps)
  next
    case False
    let ?q = "dev_quantum v k (hd dev)"
    let ?qp = "q_pos_of v k dev f_pos"
    define n where "n = min count (?q - ?qp)"
    have qp: "?qp < ?q" using wf by (rule q_pos_of_less)
    have n0: "0 < n" using False qp by (simp add: n_def)
    have nc: "n \<le> count" by (simp add: n_def)
    from less.prems(3)[of 0] False obtain blk where B: "block_at v k dev f_pos = Some blk"
      by (auto simp: byte_at_Some)
    have run: "\<And>i. i < n \<Longrightarrow> byte_at v k dev (f_pos + i) = Some (xs ! i)"
      using less.prems(3) nc by simp
    have nq: "n \<le> ?q - ?qp" by (simp add: n_def)
    note br = byte_at_run[OF wf run nq n0 B]
    have out: "take n (drop ?qp (bytes blk)) = take n xs"
      using br(2) less.prems(1) nc by auto
    have n': "n = min (min count (size_dev (hd dev) - f_pos)) (?q - ?qp)"
      using less.prems(2) by (simp add: n_def min_def)
    have R: "scull_read v k (E f_pos) dev count f_pos =
           \<lparr>r_ret = Ret n, r_out = take n xs, r_dev = dev, r_pos = f_pos + n\<rparr>"
      using scull_read_block[OF wf _ _ _ B n', where e = "E f_pos"] E[of f_pos] br(1)
            less.prems(2) out
      by simp
    have IH: "read_all v k E dev (count - n) (f_pos + n) =
           \<lparr>r_ret = Ret (count - n), r_out = drop n xs, r_dev = dev,
            r_pos = f_pos + n + (count - n)\<rparr>"
    proof (rule less.IH)
      show "count - n < count" using n0 False by simp
      show "length (drop n xs) = count - n" using less.prems(1) by simp
      show "f_pos + n + (count - n) \<le> size_dev (hd dev)" using less.prems(2) nc by simp
      fix i assume "i < count - n"
      then show "byte_at v k dev (f_pos + n + i) = Some (drop n xs ! i)"
        using less.prems(3)[of "n + i"] less.prems(1) nc by (simp add: add.assoc)
    qed
    show ?thesis
      using False n0 nc
      by (subst read_all.simps) (simp add: R IH Let_def)
  qed
qed

text \<open>
  Every block can hold a quantum: the stored ones, and every fresh one that write
  would allocate.
\<close>

definition holds_quantum :: "variant \<Rightarrow> params \<Rightarrow> scull_dev list \<Rightarrow> bool" where
  "holds_quantum v k dev \<longleftrightarrow>
     (\<forall>pos b. block_at v k dev pos = Some b \<longrightarrow> dev_quantum v k (hd dev) \<le> length (bytes b)) \<and>
     (\<forall>dptr. dev_quantum v k (hd dev) \<le> new_block_len v k dptr)"

lemma landing_holds:
  assumes "holds_quantum v k dev" "landing v k e dev f_pos = Some blk"
  shows "dev_quantum v k (hd dev) \<le> length (bytes blk)"
  using assms
  by (auto simp: holds_quantum_def landing_cases split: option.splits)

lemma landing_calm:
  "block_alloc e \<noteq> None \<Longrightarrow> \<exists>blk. landing v k e dev f_pos = Some blk"
  by (auto simp: landing_cases split: option.splits)

lemma holds_quantum_write:
  assumes R: "w_ret (scull_write v k e dev buf count f_pos) = Ret n" and ne: "dev \<noteq> []"
    and H: "holds_quantum v k dev"
  shows "holds_quantum v k (w_dev (scull_write v k e dev buf count f_pos))"
proof -
  let ?W = "scull_write v k e dev buf count f_pos"
  let ?q = "dev_quantum v k (hd dev)"
  let ?qp = "q_pos_of v k dev f_pos"
  from scull_write_Ret[OF R] have nb: "n \<le> length buf" by blast
  note V = scull_write_Ret_view[OF R ne]
  from V(1) obtain blk where
    L: "landing v k e dev f_pos = Some blk" and
    room: "n \<noteq> 0 \<longrightarrow> ?qp + n \<le> length (bytes blk)" and
    here: "block_at v k (w_dev ?W) f_pos =
       Some (blk\<lparr>bytes := take ?qp (bytes blk) @ take n buf @ drop (?qp + n) (bytes blk)\<rparr>)" and
    other: "\<And>pos. item_of v k dev pos \<noteq> item_of v k dev f_pos \<or>
            s_pos_of v k dev pos \<noteq> s_pos_of v k dev f_pos \<Longrightarrow>
        block_at v k (w_dev ?W) pos = block_at v k dev pos"
    by blast
  note tr = translated_cong[OF V(3) V(4) V(5), of v k]
  have lb: "?q \<le> length (bytes blk)" using H L by (rule landing_holds)
  have same_len: "length (take ?qp (bytes blk) @ take n buf @ drop (?qp + n) (bytes blk))
                    = length (bytes blk)"
    using room nb by (cases "n = 0") auto
  have "?q \<le> length (bytes b)" if b: "block_at v k (w_dev ?W) pos = Some b" for pos b
  proof (cases "item_of v k dev pos = item_of v k dev f_pos \<and>
                s_pos_of v k dev pos = s_pos_of v k dev f_pos")
    case True
    then have "block_at v k (w_dev ?W) pos = block_at v k (w_dev ?W) f_pos"
      by (intro block_at_same_block) (simp_all add: tr)
    with b here have "bytes b = take ?qp (bytes blk) @ take n buf @ drop (?qp + n) (bytes blk)"
      by auto
    then show ?thesis using same_len lb by simp
  next
    case False
    then have "block_at v k dev pos = Some b" using other[of pos] b by auto
    then show ?thesis using H by (auto simp: holds_quantum_def)
  qed
  then show ?thesis using H by (simp add: holds_quantum_def tr)
qed

lemma write_all_stores:
  assumes E: "\<And>p. \<not> interrupted (E p) \<and> \<not> kmalloc_fails (E p) \<and> block_alloc (E p) \<noteq> None \<and>
                   uncopied (E p) = 0"
  shows "wf v k dev \<Longrightarrow> holds_quantum v k dev \<Longrightarrow>
     w_ret (write_all v k E dev buf f_pos) = Ret (length buf) \<and>
     w_pos (write_all v k E dev buf f_pos) = f_pos + length buf \<and>
     wf v k (w_dev (write_all v k E dev buf f_pos)) \<and>
     quantum (hd (w_dev (write_all v k E dev buf f_pos))) = quantum (hd dev) \<and>
     order (hd (w_dev (write_all v k E dev buf f_pos))) = order (hd dev) \<and>
     qset (hd (w_dev (write_all v k E dev buf f_pos))) = qset (hd dev) \<and>
     size_dev (hd (w_dev (write_all v k E dev buf f_pos))) =
       (if buf = [] then size_dev (hd dev) else max (size_dev (hd dev)) (f_pos + length buf)) \<and>
     (\<forall>i<length buf. byte_at v k (w_dev (write_all v k E dev buf f_pos)) (f_pos + i)
                       = Some (buf ! i)) \<and>
     (\<forall>p b. p < f_pos \<longrightarrow> byte_at v k dev p = Some b \<longrightarrow>
             byte_at v k (w_dev (write_all v k E dev buf f_pos)) p = Some b)"
proof (induction "length buf" arbitrary: buf dev f_pos rule: less_induct)
  case less
  note wf = less.prems(1) and H = less.prems(2)
  show ?case
  proof (cases "buf = []")
    case True
    then show ?thesis using wf by (simp add: write_all.simps)
  next
    case False
    let ?q = "dev_quantum v k (hd dev)"
    let ?qp = "q_pos_of v k dev f_pos"
    let ?e = "E f_pos"
    let ?W1 = "scull_write v k ?e dev buf (length buf) f_pos"
    define n where "n = min (length buf) (?q - ?qp)"
    have ne: "dev \<noteq> []" using wf by (rule wf_nonempty)
    have qp: "?qp < ?q" using wf by (rule q_pos_of_less)
    have n0: "0 < n" using False qp by (simp add: n_def)
    have nb: "n \<le> length buf" by (simp add: n_def)
    have nq: "?qp + n \<le> ?q" using qp by (simp add: n_def)
    from landing_calm[of ?e v k dev f_pos] E[of f_pos]
    obtain blk where L: "landing v k ?e dev f_pos = Some blk" by blast
    have lb: "?q \<le> length (bytes blk)" using H L by (rule landing_holds)
    have R1: "w_ret ?W1 = Ret n"
      using E[of f_pos] nq lb nb n0
      by (intro scull_write_succeeds[OF wf _ _ L]) (simp_all add: n_def)
    note V = scull_write_Ret_view[OF R1 ne]
    have p1: "w_pos ?W1 = f_pos + n" using scull_write_Ret[OF R1] by blast
    have wf1: "wf v k (w_dev ?W1)" using R1 wf by (rule wf_write_Ret)
    have H1: "holds_quantum v k (w_dev ?W1)" using R1 ne H by (rule holds_quantum_write)
    let ?W' = "write_all v k E (w_dev ?W1) (drop n buf) (f_pos + n)"
    have short: "length (drop n buf) < length buf" using n0 False by simp
    note IH = less.hyps[OF short wf1 H1, of "f_pos + n"]
    have unf: "write_all v k E dev buf f_pos = ?W'\<lparr>w_ret := Ret (n + (length buf - n))\<rparr>"
      using False n0 IH
      by (subst write_all.simps) (simp add: R1 p1 Let_def)
    have ret: "w_ret (write_all v k E dev buf f_pos) = Ret (length buf)"
      using nb by (simp add: unf)
    have dv: "w_dev (write_all v k E dev buf f_pos) = w_dev ?W'" by (simp add: unf)
    have ps: "w_pos (write_all v k E dev buf f_pos) = f_pos + length buf"
      using IH nb by (simp add: unf)
    have sz: "size_dev (hd (w_dev ?W')) = max (size_dev (hd dev)) (f_pos + length buf)"
      using IH V(7) nb by (auto simp: max_def)
    have new: "byte_at v k (w_dev ?W') (f_pos + i) = Some (buf ! i)" if i: "i < length buf" for i
    proof (cases "i < n")
      case True
      then have "byte_at v k (w_dev ?W1) (f_pos + i) = Some (buf ! i)"
        using byte_at_write(1)[OF R1 ne, of "f_pos + i"] by simp
      then show ?thesis using IH True by simp
    next
      case False
      then have "i - n < length (drop n buf)" using i by simp
      with IH have "byte_at v k (w_dev ?W') (f_pos + n + (i - n)) = Some (drop n buf ! (i - n))"
        by blast
      then show ?thesis using False i by simp
    qed
    have old: "byte_at v k (w_dev ?W') p = Some b"
      if "p < f_pos" "byte_at v k dev p = Some b" for p b
    proof -
      have "byte_at v k (w_dev ?W1) p = Some b"
        using byte_at_write(2)[OF R1 ne, of p b] that by simp
      then show ?thesis using IH that(1) by simp
    qed
    show ?thesis
      unfolding ret ps dv
      using IH V(3) V(4) V(5) sz new old False by simp
  qed
qed

section \<open>Small devices to run the model on\<close>

text \<open>
  A call in which nothing goes wrong: the lock is taken, the allocations succeed (every
  block at address 64) and the user copy is complete.
\<close>

definition calm :: env where
  "calm = \<lparr>interrupted = False, kmalloc_fails = False, block_alloc = Some 64, uncopied = 0\<rparr>"

text \<open>Pages of 16 bytes; scullc with quanta of 4 bytes, two to a node; order 0.\<close>

definition tiny :: params where
  "tiny = \<lparr>PAGE_SHIFT = 4, scull_quantum = 4, scull_order = 0, scull_qset = 2\<rparr>"

text \<open>The device as \<^verbatim>\<open>scullc_init\<close> leaves it, the parameters being those of \<open>tiny\<close>.\<close>

definition fresh :: "scull_dev list" where
  "fresh = [\<lparr>data = None, vmas = 0, quantum = 4, order = 0, qset = 2, size_dev = 0\<rparr>]"

text \<open>
  A scullc device after two bytes were written at offset 20: node 2, slot 1. Nodes 0
  and 1 were created on the way and hold nothing.
\<close>

definition holey :: "scull_dev list" where
  "holey =
     [\<lparr>data = None, vmas = 0, quantum = 4, order = 0, qset = 2, size_dev = 22\<rparr>,
      zeroed,
      zeroed\<lparr>data := Some [None, Some \<lparr>addr = 64, bytes = [7, 8, 0, 0]\<rparr>]\<rparr>]"

text \<open>
  A scullc device whose first node is full: eight bytes were written from offset 0, four
  in one call and four in the next.
\<close>

definition full :: "scull_dev list" where
  "full =
     [\<lparr>data = Some [Some \<lparr>addr = 64, bytes = [1, 2, 3, 4]\<rparr>,
                     Some \<lparr>addr = 64, bytes = [5, 6, 7, 8]\<rparr>],
       vmas = 0, quantum = 4, order = 0, qset = 2, size_dev = 8\<rparr>]"

text \<open>
  A scullp or scullv device of order 0 with two slots to a node and two open mappings:
  the first page is stored at address 4096, the second is a hole, and size is 20.
\<close>

definition paged :: "scull_dev list" where
  "paged =
     [\<lparr>data = Some [Some \<lparr>addr = 4096, bytes = replicate 16 1\<rparr>, None],
       vmas = 2, quantum = 0, order = 0, qset = 2, size_dev = 20\<rparr>]"

text \<open>A scullv device of order 1: blocks of two pages.\<close>

definition two_page :: "scull_dev list" where
  "two_page = [\<lparr>data = None, vmas = 0, quantum = 0, order = 1, qset = 2, size_dev = 0\<rparr>]"



lemma wf_fresh: "wf Scullc tiny fresh"
  by (simp add: wf_def fresh_def dev_quantum_def)

section \<open>Reading at the end of the data and in a hole\<close>



section \<open>The file position\<close>

text \<open>The number of bytes a call returned: 0 when it returned an error.\<close>

definition returned :: "retval \<Rightarrow> nat" where
  "returned r = (case r of Ret n \<Rightarrow> n | _ \<Rightarrow> 0)"

text \<open>
  C10: for every read and write call, the file position advances by exactly the number
  of bytes the call returns: on every outcome that returns an error or 0 bytes
  (end-of-data, hole, allocation failure, interrupted lock wait, user-memory copy fault),
  the file position is left unchanged.
\<close>

theorem position_advances_by_return:
  "r_pos (scull_read v k e dev count f_pos) =
     f_pos + returned (r_ret (scull_read v k e dev count f_pos)) \<and>
   w_pos (scull_write v k e dev buf count f_pos) =
     f_pos + returned (w_ret (scull_write v k e dev buf count f_pos))"
proof
  show "r_pos (scull_read v k e dev count f_pos) =
     f_pos + returned (r_ret (scull_read v k e dev count f_pos))"
    by (simp add: scull_read_def Let_def returned_def split: option.splits prod.splits)
  show "w_pos (scull_write v k e dev buf count f_pos) =
     f_pos + returned (w_ret (scull_write v k e dev buf count f_pos))"
    by (simp add: scull_write_def Let_def returned_def split: option.splits prod.splits)
qed

section \<open>What a read does to the device\<close>

lemma full_reached:
  "w_dev (scull_write Scullc tiny calm
            (w_dev (scull_write Scullc tiny calm fresh [1, 2, 3, 4] 4 0))
            [5, 6, 7, 8] 4 4) = full"
  by code_simp




section \<open>What a successful write does\<close>



section \<open>Writing no bytes\<close>




section \<open>Trimming a mapped and an unmapped device\<close>



section \<open>Page faults\<close>



section \<open>Opening a mapping\<close>

lemma scullp_mmap_refuses:
  "order (hd dev) \<noteq> 0 \<Longrightarrow> scullp_mmap dev = (Err ENODEV, dev)"
  by (simp add: scullp_mmap_def)

text \<open>
  C2: for every device whose allocator configuration does not yield one block per page
  (page-run order > 0, or the multi-page scattered-virtual configuration), opening a
  memory mapping fails with NotSupported and leaves mapping_count unchanged; this holds
  for every mapping-capable variant. \<^verbatim>\<open>scullp_mmap\<close> does so; \<^verbatim>\<open>scullv_mmap\<close> has no
  such test: on a scullv device of order 1 it returns 0 and counts the mapping.
\<close>

theorem scullv_mmap_accepts_order_1:
  "order (hd two_page) = 1 \<and>
   scullv_mmap two_page = (Ret 0, [(hd two_page)\<lparr>vmas := 1\<rparr>]) \<and>
   scullp_mmap two_page = (Err ENODEV, two_page)"
  by (simp add: scullv_mmap_def scullp_mmap_def scull_vma_open_def two_page_def)

section \<open>The size over a sequence of calls\<close>

text \<open>
  \<^verbatim>\<open>scullc_open\<close>, \<^verbatim>\<open>scullp_open\<close>, \<^verbatim>\<open>scullv_open\<close>: a device opened write-only is
  trimmed, the result of trim being ignored.
\<close>

definition scull_open ::
  "variant \<Rightarrow> params \<Rightarrow> env \<Rightarrow> bool \<Rightarrow> scull_dev list \<Rightarrow> retval \<times> scull_dev list" where
  "scull_open v k e wronly dev =
     (if wronly then
        (if interrupted e then (Err ERESTARTSYS, dev)
         else (Ret 0, t_dev (scull_trim v k dev)))
      else (Ret 0, dev))"

text \<open>
  The \<^verbatim>\<open>mmap\<close> method of the driver: \<^verbatim>\<open>scullc_fops\<close> has none, and the kernel then
  refuses the mapping.
\<close>

definition scull_mmap :: "variant \<Rightarrow> scull_dev list \<Rightarrow> retval \<times> scull_dev list" where
  "scull_mmap v dev =
     (case v of Scullc \<Rightarrow> (Err ENODEV, dev) | Scullp \<Rightarrow> scullp_mmap dev
      | Scullv \<Rightarrow> scullv_mmap dev)"

text \<open>
  The calls that reach a device through its \<^verbatim>\<open>file_operations\<close> and
  \<^verbatim>\<open>vm_operations_struct\<close>, with their arguments, and the state they work on: the
  device, the position of the open file and the reference counts of the pages.
\<close>

datatype op =
    Open env bool
  | Read env nat
  | Write env "byte list" nat
  | Llseek int int
  | Mmap
  | Vma_close
  | Fault vm_area nat

record sys =
  s_dev :: "scull_dev list"
  s_pos :: nat
  s_refs :: "nat \<Rightarrow> nat"

fun step :: "variant \<Rightarrow> params \<Rightarrow> (nat \<Rightarrow> nat) \<Rightarrow> op \<Rightarrow> sys \<Rightarrow> sys" where
  "step v k to_page (Open e wronly) s = s\<lparr>s_dev := snd (scull_open v k e wronly (s_dev s))\<rparr>"
| "step v k to_page (Read e count) s =
     s\<lparr>s_dev := r_dev (scull_read v k e (s_dev s) count (s_pos s)),
       s_pos := r_pos (scull_read v k e (s_dev s) count (s_pos s))\<rparr>"
| "step v k to_page (Write e buf count) s =
     s\<lparr>s_dev := w_dev (scull_write v k e (s_dev s) buf count (s_pos s)),
       s_pos := w_pos (scull_write v k e (s_dev s) buf count (s_pos s))\<rparr>"
| "step v k to_page (Llseek off whence) s =
     s\<lparr>s_pos := snd (scull_llseek (s_dev s) (s_pos s) off whence)\<rparr>"
| "step v k to_page Mmap s = s\<lparr>s_dev := snd (scull_mmap v (s_dev s))\<rparr>"
| "step v k to_page Vma_close s = s\<lparr>s_dev := scull_vma_close (s_dev s)\<rparr>"
| "step v k to_page (Fault vma address) s =
     s\<lparr>s_refs := f_refs (scull_vma_nopage k to_page (s_dev s) vma address (s_refs s))\<rparr>"

fun run :: "variant \<Rightarrow> params \<Rightarrow> (nat \<Rightarrow> nat) \<Rightarrow> op list \<Rightarrow> sys \<Rightarrow> sys" where
  "run v k to_page [] s = s"
| "run v k to_page (x # xs) s = run v k to_page xs (step v k to_page x s)"

text \<open>The calls that trim: an open for writing only.\<close>

fun trims :: "op \<Rightarrow> bool" where
  "trims (Open e wronly) = wronly"
| "trims _ = False"

lemma vma_keeps_size:
  "dev \<noteq> [] \<Longrightarrow> scull_vma_open dev \<noteq> [] \<and> size_dev (hd (scull_vma_open dev)) = size_dev (hd dev)"
  "dev \<noteq> [] \<Longrightarrow> scull_vma_close dev \<noteq> [] \<and> size_dev (hd (scull_vma_close dev)) = size_dev (hd dev)"
  by (cases dev; simp add: scull_vma_open_def scull_vma_close_def)+

lemma mmap_keeps_size:
  "dev \<noteq> [] \<Longrightarrow> snd (scull_mmap v dev) \<noteq> [] \<and>
     size_dev (hd (snd (scull_mmap v dev))) = size_dev (hd dev)"
  using vma_keeps_size(1)[of dev]
  by (cases v) (simp_all add: scull_mmap_def scullp_mmap_def scullv_mmap_def)

lemma step_size:
  assumes "s_dev s \<noteq> []" "\<not> trims x"
  shows "s_dev (step v k to_page x s) \<noteq> [] \<and>
         size_dev (hd (s_dev s)) \<le> size_dev (hd (s_dev (step v k to_page x s)))"
proof (cases x)
  case (Open e w)
  then show ?thesis using assms by (simp add: scull_open_def)
next
  case (Read e count)
  then show ?thesis using assms by (simp add: read_keeps_head)
next
  case (Write e buf count)
  then show ?thesis using assms write_keeps_head(1,2)[OF assms(1)] by simp
next
  case (Llseek off whence)
  then show ?thesis using assms by simp
next
  case Mmap
  then show ?thesis using assms mmap_keeps_size[OF assms(1)] by simp
next
  case Vma_close
  then show ?thesis using assms vma_keeps_size(2)[OF assms(1)] by simp
next
  case (Fault vma address)
  then show ?thesis using assms by simp
qed

lemma run_size:
  "s_dev s \<noteq> [] \<Longrightarrow> \<not> list_ex trims ops \<Longrightarrow>
   size_dev (hd (s_dev s)) \<le> size_dev (hd (s_dev (run v k to_page ops s)))"
proof (induction ops arbitrary: s)
  case Nil
  then show ?case by simp
next
  case (Cons x xs)
  from Cons.prems have nt: "\<not> trims x" and rest: "\<not> list_ex trims xs" by simp_all
  note st = step_size[OF Cons.prems(1) nt, of v k to_page]
  from Cons.IH[of "step v k to_page x s"] st rest
  show ?case by (simp del: step.simps)
qed

lemma trim_size:
  "t_ret (scull_trim v k dev) = Ret 0 \<Longrightarrow> size_dev (hd (t_dev (scull_trim v k dev))) = 0"
  by (cases v) (auto simp: scull_trim_def Let_def reset_dev_def split: if_splits)

text \<open>
  C8: monotonic size invariant: after every successful write ending at offset o+n,
  size >= o+n; and across every sequence of operations (read, write, seek, page-fault
  resolution), size never decreases except via trim, which resets it to 0. The sequences
  are those of the calls above in which no open trims; mapping and unmapping are among
  them.
\<close>

theorem size_monotonic:
  assumes "s_dev s \<noteq> []"
  shows "(\<forall>e buf count n.
            w_ret (scull_write v k e (s_dev s) buf count (s_pos s)) = Ret n \<longrightarrow>
            s_pos s + n \<le> size_dev (hd (w_dev (scull_write v k e (s_dev s) buf count (s_pos s))))) \<and>
         (\<not> list_ex trims ops \<longrightarrow>
            size_dev (hd (s_dev s)) \<le> size_dev (hd (s_dev (run v k to_page ops s)))) \<and>
         (t_ret (scull_trim v k (s_dev s)) = Ret 0 \<longrightarrow>
            size_dev (hd (t_dev (scull_trim v k (s_dev s)))) = 0)"
proof (intro conjI allI impI)
  fix e buf count n
  assume R: "w_ret (scull_write v k e (s_dev s) buf count (s_pos s)) = Ret n"
  from scull_write_Ret_view(7)[OF R assms]
  show "s_pos s + n \<le> size_dev (hd (w_dev (scull_write v k e (s_dev s) buf count (s_pos s))))"
    by simp
next
  assume "\<not> list_ex trims ops"
  with assms show "size_dev (hd (s_dev s)) \<le> size_dev (hd (s_dev (run v k to_page ops s)))"
    by (rule run_size)
next
  assume "t_ret (scull_trim v k (s_dev s)) = Ret 0"
  then show "size_dev (hd (t_dev (scull_trim v k (s_dev s)))) = 0" by (rule trim_size)
qed

text \<open>
  A scullp file at position 0 on the mapped device \<open>paged\<close>, a scullc file on \<open>holey\<close>,
  and a run of calls none of which trims.
\<close>

definition paged_file :: sys where
  "paged_file = \<lparr>s_dev = paged, s_pos = 0, s_refs = (\<lambda>p. 1)\<rparr>"

definition holey_file :: sys where
  "holey_file = \<lparr>s_dev = holey, s_pos = 0, s_refs = (\<lambda>p. 1)\<rparr>"

definition calls :: "op list" where
  "calls =
     [Fault \<lparr>vm_start = 160, vm_pgoff = 0\<rparr> 160, Llseek 18 0, Write calm [9, 9, 9] 3,
      Llseek 0 0, Read calm 4, Vma_close, Mmap, Open calm False]"

theorem size_monotonic_witness:
  "s_dev paged_file \<noteq> [] \<and>
   w_ret (scull_write Scullp tiny calm (s_dev paged_file) [9, 9] 2 (s_pos paged_file)) = Ret 2 \<and>
   s_pos paged_file + 2 \<le>
     size_dev (hd (w_dev (scull_write Scullp tiny calm (s_dev paged_file) [9, 9] 2
                            (s_pos paged_file)))) \<and>
   \<not> list_ex trims calls \<and>
   size_dev (hd (s_dev paged_file)) \<le>
     size_dev (hd (s_dev (run Scullp tiny (\<lambda>a. a div 16) calls paged_file))) \<and>
   s_dev holey_file \<noteq> [] \<and>
   t_ret (scull_trim Scullc tiny (s_dev holey_file)) = Ret 0 \<and>
   size_dev (hd (t_dev (scull_trim Scullc tiny (s_dev holey_file)))) = 0"
proof -
  have ne: "s_dev paged_file \<noteq> []"
    by (simp add: paged_file_def paged_def)
  have ne': "s_dev holey_file \<noteq> []"
    by (simp add: holey_file_def holey_def)
  have R: "w_ret (scull_write Scullp tiny calm (s_dev paged_file) [9, 9] 2 (s_pos paged_file))
             = Ret 2"
    by code_simp
  have nt: "\<not> list_ex trims calls"
    by (simp add: calls_def)
  have T: "t_ret (scull_trim Scullc tiny (s_dev holey_file)) = Ret 0"
    by code_simp
  show ?thesis
    using size_monotonic[OF ne, of Scullp tiny calls "\<lambda>a. a div 16"]
          size_monotonic[OF ne', of Scullc tiny "[]" "\<lambda>a. a div 16"] ne ne' R nt T
    by blast
qed

section \<open>Writing and reading back\<close>

text \<open>
  Every block of the device is long enough for a quantum, and so is every block that
  write would allocate: in scullc the blocks come from the cache of \<^verbatim>\<open>scullc_quantum\<close>
  bytes, which must not be shorter than the device's quantum; in scullp and scullv a
  block is as long as the order of its list node says, and the nodes that follow
  allocates are zeroed, of order 0, so the device's order must be 0.
\<close>

definition roomy :: "variant \<Rightarrow> params \<Rightarrow> scull_dev list \<Rightarrow> bool" where
  "roomy v k dev \<longleftrightarrow>
     list_all (\<lambda>n. case data n of
                 None \<Rightarrow> True
               | Some arr \<Rightarrow>
                   list_all (\<lambda>s. case s of
                               None \<Rightarrow> True
                             | Some b \<Rightarrow> dev_quantum v k (hd dev) \<le> length (bytes b)) arr) dev \<and>
     (case v of Scullc \<Rightarrow> quantum (hd dev) \<le> scull_quantum k | _ \<Rightarrow> order (hd dev) = 0)"

lemma roomy_holds:
  assumes "roomy v k dev"
  shows "holds_quantum v k dev"
proof -
  let ?q = "dev_quantum v k (hd dev)"
  have "?q \<le> length (bytes b)" if b: "block_at v k dev pos = Some b" for pos b
  proof -
    from block_at_SomeD[OF b] obtain arr where
      it: "item_of v k dev pos < length dev" and
      A: "data (dev ! item_of v k dev pos) = Some arr" and
      sp: "s_pos_of v k dev pos < length arr" and
      S: "arr ! s_pos_of v k dev pos = Some b"
      by blast
    from assms it have "case data (dev ! item_of v k dev pos) of
                 None \<Rightarrow> True
               | Some arr \<Rightarrow>
                   list_all (\<lambda>s. case s of
                               None \<Rightarrow> True
                             | Some b \<Rightarrow> ?q \<le> length (bytes b)) arr"
      by (simp add: roomy_def list_all_length)
    with A sp have "case arr ! s_pos_of v k dev pos of None \<Rightarrow> True
                    | Some b \<Rightarrow> ?q \<le> length (bytes b)"
      by (simp add: list_all_length)
    with S show ?thesis by simp
  qed
  moreover have "?q \<le> new_block_len v k dptr" for dptr
    using assms by (cases v) (simp_all add: roomy_def dev_quantum_def new_block_len_def)
  ultimately show ?thesis by (simp add: holds_quantum_def)
qed

text \<open>
  The device as \<^verbatim>\<open>scullc_init\<close>, \<^verbatim>\<open>scullp_init\<close> and \<^verbatim>\<open>scullv_init\<close> leave it: zeroed,
  then the quantum (or the order) and the qset set from the load-time parameters.
\<close>

definition scull_init_dev :: "variant \<Rightarrow> params \<Rightarrow> scull_dev list" where
  "scull_init_dev v k =
     [case v of
        Scullc \<Rightarrow> zeroed\<lparr>quantum := scull_quantum k, qset := scull_qset k\<rparr>
      | _ \<Rightarrow> zeroed\<lparr>order := scull_order k, qset := scull_qset k\<rparr>]"

text \<open>Pages of 4096 bytes, a quantum of 4096 bytes (order 0), four quanta to a node.\<close>

definition standard :: params where
  "standard = \<lparr>PAGE_SHIFT = 12, scull_quantum = 4096, scull_order = 0, scull_qset = 4\<rparr>"

lemma standard_dev:
  "wf v standard (scull_init_dev v standard)"
  "roomy v standard (scull_init_dev v standard)"
  "size_dev (hd (scull_init_dev v standard)) = 0"
  "dev_quantum v standard (hd (scull_init_dev v standard)) = 4096"
  "qset (hd (scull_init_dev v standard)) = 4"
  by (cases v; simp add: wf_def roomy_def scull_init_dev_def standard_def zeroed_def
        dev_quantum_def PAGE_SIZE_def)+

lemma round_trip_general:
  assumes wf: "wf v k dev" and ro: "roomy v k dev"
    and E: "\<forall>p. \<not> interrupted (E p) \<and> \<not> kmalloc_fails (E p) \<and> block_alloc (E p) \<noteq> None \<and>
                uncopied (E p) = 0"
    and E': "\<forall>p. \<not> interrupted (E' p) \<and> uncopied (E' p) = 0"
  shows "w_ret (write_all v k E dev buf f_pos) = Ret (length buf) \<and>
         w_pos (write_all v k E dev buf f_pos) = f_pos + length buf \<and>
         size_dev (hd (w_dev (write_all v k E dev buf f_pos))) =
           (if buf = [] then size_dev (hd dev) else max (size_dev (hd dev)) (f_pos + length buf)) \<and>
         read_all v k E' (w_dev (write_all v k E dev buf f_pos)) (length buf) f_pos =
           \<lparr>r_ret = Ret (length buf), r_out = buf,
            r_dev = w_dev (write_all v k E dev buf f_pos), r_pos = f_pos + length buf\<rparr>"
proof -
  let ?D = "w_dev (write_all v k E dev buf f_pos)"
  have Ep: "\<And>p. \<not> interrupted (E p) \<and> \<not> kmalloc_fails (E p) \<and> block_alloc (E p) \<noteq> None \<and>
                uncopied (E p) = 0"
    using E by blast
  have Ep': "\<And>p. \<not> interrupted (E' p) \<and> uncopied (E' p) = 0" using E' by blast
  note S = write_all_stores[of E v k dev buf f_pos, OF Ep wf roomy_holds[OF ro]]
  have rd: "read_all v k E' ?D (length buf) f_pos =
           \<lparr>r_ret = Ret (length buf), r_out = buf, r_dev = ?D, r_pos = f_pos + length buf\<rparr>"
  proof (cases "buf = []")
    case True
    then show ?thesis by (simp add: read_all.simps)
  next
    case False
    show ?thesis
    proof (rule read_all_stored[OF _ Ep' refl])
      show "wf v k ?D" using S by blast
      show "f_pos + length buf \<le> size_dev (hd ?D)" using S False by simp
      fix i assume "i < length buf"
      then show "byte_at v k ?D (f_pos + i) = Some (buf ! i)" using S by blast
    qed
  qed
  show ?thesis using S rd by blast
qed

lemma roomy_fresh: "roomy Scullc tiny fresh"
  by (simp add: roomy_def fresh_def tiny_def)

text \<open>
  The round trip on a device whose blocks can hold a quantum: for every offset o and byte
  sequence of length n, writing those n bytes at o (looping per block so no single call
  crosses a block boundary) and then reading n bytes from o (looping likewise) returns
  exactly the bytes written; in particular with quantum=4096 and qset=4, writing 5000
  bytes at offset 0 then reading 5000 bytes from offset 0 returns the original 5000 bytes
  and size == 5000. The device is well-formed; no call is interrupted, no allocation
  fails and the user copies are complete. The device of the particular case is the
  freshly initialised one.
\<close>

theorem round_trip:
  assumes "wf v k dev" and "roomy v k dev"
    and "\<forall>p. \<not> interrupted (E p) \<and> \<not> kmalloc_fails (E p) \<and> block_alloc (E p) \<noteq> None \<and>
             uncopied (E p) = 0"
    and "\<forall>p. \<not> interrupted (E' p) \<and> uncopied (E' p) = 0"
  shows "w_ret (write_all v k E dev buf f_pos) = Ret (length buf) \<and>
         w_pos (write_all v k E dev buf f_pos) = f_pos + length buf \<and>
         size_dev (hd (w_dev (write_all v k E dev buf f_pos))) =
           (if buf = [] then size_dev (hd dev) else max (size_dev (hd dev)) (f_pos + length buf)) \<and>
         read_all v k E' (w_dev (write_all v k E dev buf f_pos)) (length buf) f_pos =
           \<lparr>r_ret = Ret (length buf), r_out = buf,
            r_dev = w_dev (write_all v k E dev buf f_pos), r_pos = f_pos + length buf\<rparr> \<and>
         (length bs = 5000 \<longrightarrow>
            dev_quantum v standard (hd (scull_init_dev v standard)) = 4096 \<and>
            qset (hd (scull_init_dev v standard)) = 4 \<and>
            w_ret (write_all v standard E (scull_init_dev v standard) bs 0) = Ret 5000 \<and>
            size_dev (hd (w_dev (write_all v standard E (scull_init_dev v standard) bs 0)))
              = 5000 \<and>
            read_all v standard E'
                (w_dev (write_all v standard E (scull_init_dev v standard) bs 0)) 5000 0 =
              \<lparr>r_ret = Ret 5000, r_out = bs,
               r_dev = w_dev (write_all v standard E (scull_init_dev v standard) bs 0),
               r_pos = 5000\<rparr>)"
proof -
  note G = round_trip_general[OF assms, of buf f_pos]
  have "length bs = 5000 \<longrightarrow>
            dev_quantum v standard (hd (scull_init_dev v standard)) = 4096 \<and>
            qset (hd (scull_init_dev v standard)) = 4 \<and>
            w_ret (write_all v standard E (scull_init_dev v standard) bs 0) = Ret 5000 \<and>
            size_dev (hd (w_dev (write_all v standard E (scull_init_dev v standard) bs 0)))
              = 5000 \<and>
            read_all v standard E'
                (w_dev (write_all v standard E (scull_init_dev v standard) bs 0)) 5000 0 =
              \<lparr>r_ret = Ret 5000, r_out = bs,
               r_dev = w_dev (write_all v standard E (scull_init_dev v standard) bs 0),
               r_pos = 5000\<rparr>"
  proof
    assume l: "length bs = 5000"
    then have n: "bs \<noteq> []" by auto
    from round_trip_general[OF standard_dev(1,2) assms(3,4), of v bs 0] l n
    show "dev_quantum v standard (hd (scull_init_dev v standard)) = 4096 \<and>
            qset (hd (scull_init_dev v standard)) = 4 \<and>
            w_ret (write_all v standard E (scull_init_dev v standard) bs 0) = Ret 5000 \<and>
            size_dev (hd (w_dev (write_all v standard E (scull_init_dev v standard) bs 0)))
              = 5000 \<and>
            read_all v standard E'
                (w_dev (write_all v standard E (scull_init_dev v standard) bs 0)) 5000 0 =
              \<lparr>r_ret = Ret 5000, r_out = bs,
               r_dev = w_dev (write_all v standard E (scull_init_dev v standard) bs 0),
               r_pos = 5000\<rparr>"
      by (simp add: standard_dev)
  qed
  with G show ?thesis by blast
qed

text \<open>Ten bytes to write, and the 5000 bytes of the particular case.\<close>

definition ten :: "byte list" where
  "ten = [1, 2, 3, 4, 5, 6, 7, 8, 9, 10]"

definition sevens :: "byte list" where
  "sevens = replicate 5000 7"

theorem round_trip_witness:
  "wf Scullc tiny fresh \<and> roomy Scullc tiny fresh \<and>
   \<not> interrupted calm \<and> \<not> kmalloc_fails calm \<and> block_alloc calm \<noteq> None \<and> uncopied calm = 0 \<and>
   length ten = 10 \<and>
   w_ret (write_all Scullc tiny (\<lambda>p. calm) fresh ten 3) = Ret (length ten) \<and>
   size_dev (hd (w_dev (write_all Scullc tiny (\<lambda>p. calm) fresh ten 3))) = 3 + length ten \<and>
   r_out (read_all Scullc tiny (\<lambda>p. calm)
           (w_dev (write_all Scullc tiny (\<lambda>p. calm) fresh ten 3)) (length ten) 3) = ten \<and>
   length sevens = 5000 \<and>
   size_dev (hd (w_dev (write_all Scullc standard (\<lambda>p. calm) (scull_init_dev Scullc standard)
                          sevens 0))) = 5000 \<and>
   r_out (read_all Scullc standard (\<lambda>p. calm)
           (w_dev (write_all Scullc standard (\<lambda>p. calm) (scull_init_dev Scullc standard)
                     sevens 0))
           5000 0) = sevens"
proof -
  have c: "\<not> interrupted calm \<and> \<not> kmalloc_fails calm \<and> block_alloc calm \<noteq> None \<and>
           uncopied calm = 0"
    by (simp add: calm_def)
  then have E: "\<forall>p::nat. \<not> interrupted calm \<and> \<not> kmalloc_fails calm \<and> block_alloc calm \<noteq> None \<and>
                 uncopied calm = 0"
    and E': "\<forall>p::nat. \<not> interrupted calm \<and> uncopied calm = 0"
    by simp_all
  note T = round_trip[OF wf_fresh roomy_fresh E E', of ten 3 sevens]
  have s: "size_dev (hd fresh) = 0" by (simp add: fresh_def)
  have l: "length sevens = 5000" by (simp add: sevens_def)
  have t: "length ten = 10" "ten \<noteq> []" by (simp_all add: ten_def)
  from T l have 1:
    "size_dev (hd (w_dev (write_all Scullc standard (\<lambda>p. calm) (scull_init_dev Scullc standard)
                          sevens 0))) = 5000"
    "r_out (read_all Scullc standard (\<lambda>p. calm)
           (w_dev (write_all Scullc standard (\<lambda>p. calm) (scull_init_dev Scullc standard)
                     sevens 0))
           5000 0) = sevens"
    by simp_all
  from T have 2:
    "w_ret (write_all Scullc tiny (\<lambda>p. calm) fresh ten 3) = Ret (length ten)"
    by blast
  from T s t(2) have 3:
    "size_dev (hd (w_dev (write_all Scullc tiny (\<lambda>p. calm) fresh ten 3))) = 3 + length ten"
    by simp
  from T have 4:
    "r_out (read_all Scullc tiny (\<lambda>p. calm)
           (w_dev (write_all Scullc tiny (\<lambda>p. calm) fresh ten 3)) (length ten) 3) = ten"
    by simp
  show ?thesis using wf_fresh roomy_fresh c l t(1) 1 2 3 4 by blast
qed

text \<open>
  Pages of 16 bytes and blocks of two pages (order 1), two to a node: the quantum of
  scullp and scullv is 32 bytes and a list node covers 64.
\<close>

definition paired :: params where
  "paired = \<lparr>PAGE_SHIFT = 4, scull_quantum = 4, scull_order = 1, scull_qset = 2\<rparr>"

definition twenty :: "byte list" where
  "twenty = replicate 20 7"

text \<open>
  C6: round trip: writing n bytes at offset o, call after call, and reading n bytes from o
  returns the bytes written. scullp and scullv do not do so when the order is not 0 and
  the offset lies past the first list node. \<^verbatim>\<open>scullv_write\<close> allocates
  \<^verbatim>\<open>PAGE_SIZE << dptr->order\<close> bytes, with the order of the list node, and the nodes
  that follow allocates are zeroed: the block is one page long, while the quantum is
  \<^verbatim>\<open>PAGE_SIZE << dev->order\<close>. On the freshly initialised device of order 1 a write of
  20 bytes at offset 0 returns 20 (the head has the order of the device); the same write
  at offset 64, the start of the second node, is clamped to the quantum of 32 and copies
  20 bytes into a block of 16. The call ends in \<open>Oops\<close>, and so does the loop of the
  caller, in scullv and in scullp.
\<close>

theorem second_node_overrun:
  "wf Scullv paired (scull_init_dev Scullv paired) \<and>
   dev_quantum Scullv paired (hd (scull_init_dev Scullv paired)) = 32 \<and>
   qset (hd (scull_init_dev Scullv paired)) = 2 \<and>
   new_block_len Scullv paired (hd (scull_init_dev Scullv paired)) = 32 \<and>
   new_block_len Scullv paired zeroed = 16 \<and>
   w_ret (scull_write Scullv paired calm (scull_init_dev Scullv paired) twenty 20 0) = Ret 20 \<and>
   w_ret (scull_write Scullv paired calm (scull_init_dev Scullv paired) twenty 20 64) = Oops \<and>
   w_ret (write_all Scullv paired (\<lambda>p. calm) (scull_init_dev Scullv paired) twenty 64) = Oops \<and>
   w_ret (scull_write Scullp paired calm (scull_init_dev Scullp paired) twenty 20 64) = Oops \<and>
   w_ret (write_all Scullp paired (\<lambda>p. calm) (scull_init_dev Scullp paired) twenty 64) = Oops"
  by code_simp

end
